theory Spec2Isabelle
  imports Complex_Main
begin

section \<open>Conway's Game of Life: the grid and the simulation step\<close>

text \<open>
  The program keeps one global matrix \<^verbatim>\<open>static bool mapGrid[numberOfSeparators][numberOfSeparators]\<close>
  and a flag \<^verbatim>\<open>simulationRunning\<close>. The source file holds two versions of the program one
  after the other; the simulation step is the same text in both, the mouse callback and the
  spelling of the render constants differ. Loop counters are C \<^verbatim>\<open>int\<close>s that stay between
  \<open>-1\<close> and \<open>numberOfSeparators + 1\<close>, so they are modelled as unbounded integers.
\<close>

definition numberOfSeparators :: int where
  "numberOfSeparators = 80"

type_synonym grid = "bool list list"

datatype error = OutOfBounds | CastOverflow

text \<open>A value of the C array type: exactly \<open>numberOfSeparators\<close> rows of that many cells.\<close>

definition wf_grid :: "grid \<Rightarrow> bool" where
  "wf_grid g \<longleftrightarrow>
     int (length g) = numberOfSeparators \<and>
     list_all (\<lambda>row. int (length row) = numberOfSeparators) g"

text \<open>
  Array accesses. C does not check an index; a read or write outside the array is undefined
  behaviour. The model makes that outcome a value: \<open>None\<close>.
\<close>

definition grid_at :: "grid \<Rightarrow> int \<Rightarrow> int \<Rightarrow> bool option" where
  "grid_at g i j =
     (if 0 \<le> i \<and> i < int (length g) \<and> 0 \<le> j \<and> j < int (length (g ! nat i))
      then Some (g ! nat i ! nat j) else None)"

definition grid_set :: "grid \<Rightarrow> int \<Rightarrow> int \<Rightarrow> bool \<Rightarrow> grid option" where
  "grid_set g i j v =
     (if 0 \<le> i \<and> i < int (length g) \<and> 0 \<le> j \<and> j < int (length (g ! nat i))
      then Some (g[nat i := (g ! nat i)[nat j := v]]) else None)"

text \<open>
  The innermost loop of the neighbour scan,
  \<^verbatim>\<open>for (int y = -1; y <= 1; y++) { if (j + y < 0 || j + y >= N) continue;
       if (x == 0 && y == 0) continue; if (mapGrid[i + x][j + y]) aliveNeighbours++; }\<close>
\<close>

function count_y :: "grid \<Rightarrow> int \<Rightarrow> int \<Rightarrow> int \<Rightarrow> int \<Rightarrow> int \<Rightarrow> error + int" where
  "count_y mapGrid i j x y aliveNeighbours =
     (if y \<le> 1 then
        (if j + y < 0 \<or> j + y \<ge> numberOfSeparators
           then count_y mapGrid i j x (y + 1) aliveNeighbours
         else if x = 0 \<and> y = 0
           then count_y mapGrid i j x (y + 1) aliveNeighbours
         else (case grid_at mapGrid (i + x) (j + y) of
                 None \<Rightarrow> Inl OutOfBounds
               | Some alive \<Rightarrow>
                   count_y mapGrid i j x (y + 1)
                     (if alive then aliveNeighbours + 1 else aliveNeighbours)))
      else Inr aliveNeighbours)"
  by pat_completeness auto
termination
  by (relation "measure (\<lambda>(mapGrid, i, j, x, y, a). nat (2 - y))") auto

text \<open>
  The loop around it,
  \<^verbatim>\<open>for (int x = -1; x <= 1; x++) { if (i + x < 0 || i + x >= N) continue; ... }\<close>
\<close>

function count_x :: "grid \<Rightarrow> int \<Rightarrow> int \<Rightarrow> int \<Rightarrow> int \<Rightarrow> error + int" where
  "count_x mapGrid i j x aliveNeighbours =
     (if x \<le> 1 then
        (if i + x < 0 \<or> i + x \<ge> numberOfSeparators
           then count_x mapGrid i j (x + 1) aliveNeighbours
         else (case count_y mapGrid i j x (- 1) aliveNeighbours of
                 Inl e \<Rightarrow> Inl e
               | Inr a \<Rightarrow> count_x mapGrid i j (x + 1) a))
      else Inr aliveNeighbours)"
  by pat_completeness auto
termination
  by (relation "measure (\<lambda>(mapGrid, i, j, x, a). nat (2 - x))") auto

text \<open>
  The body of the loop over \<open>j\<close>: count, then
  \<^verbatim>\<open>if (mapGrid[i][j] && (aliveNeighbours < 2 || aliveNeighbours > 3)) newMapGrid[i][j] = false;
   else if (!mapGrid[i][j] && aliveNeighbours == 3) newMapGrid[i][j] = true;
   else newMapGrid[i][j] = mapGrid[i][j];\<close>
\<close>

function step_j :: "grid \<Rightarrow> int \<Rightarrow> int \<Rightarrow> grid \<Rightarrow> error + grid" where
  "step_j mapGrid i j newMapGrid =
     (if j < numberOfSeparators then
        (case count_x mapGrid i j (- 1) 0 of
           Inl e \<Rightarrow> Inl e
         | Inr aliveNeighbours \<Rightarrow>
            (case grid_at mapGrid i j of
               None \<Rightarrow> Inl OutOfBounds
             | Some cell \<Rightarrow>
                (case grid_set newMapGrid i j
                        (if cell \<and> (aliveNeighbours < 2 \<or> aliveNeighbours > 3) then False
                         else if \<not> cell \<and> aliveNeighbours = 3 then True
                         else cell) of
                   None \<Rightarrow> Inl OutOfBounds
                 | Some newMapGrid' \<Rightarrow> step_j mapGrid i (j + 1) newMapGrid')))
      else Inr newMapGrid)"
  by pat_completeness auto
termination
  by (relation "measure (\<lambda>(mapGrid, i, j, new). nat (numberOfSeparators - j))") auto

function step_i :: "grid \<Rightarrow> int \<Rightarrow> grid \<Rightarrow> error + grid" where
  "step_i mapGrid i newMapGrid =
     (if i < numberOfSeparators then
        (case step_j mapGrid i 0 newMapGrid of
           Inl e \<Rightarrow> Inl e
         | Inr newMapGrid' \<Rightarrow> step_i mapGrid (i + 1) newMapGrid')
      else Inr newMapGrid)"
  by pat_completeness auto
termination
  by (relation "measure (\<lambda>(mapGrid, i, new). nat (numberOfSeparators - i))") auto

text \<open>The copy back, \<^verbatim>\<open>mapGrid[i][j] = newMapGrid[i][j]\<close> for every \<open>i\<close> and \<open>j\<close>.\<close>

function copy_j :: "grid \<Rightarrow> int \<Rightarrow> int \<Rightarrow> grid \<Rightarrow> error + grid" where
  "copy_j mapGrid i j newMapGrid =
     (if j < numberOfSeparators then
        (case grid_at newMapGrid i j of
           None \<Rightarrow> Inl OutOfBounds
         | Some v \<Rightarrow>
            (case grid_set mapGrid i j v of
               None \<Rightarrow> Inl OutOfBounds
             | Some mapGrid' \<Rightarrow> copy_j mapGrid' i (j + 1) newMapGrid))
      else Inr mapGrid)"
  by pat_completeness auto
termination
  by (relation "measure (\<lambda>(mapGrid, i, j, new). nat (numberOfSeparators - j))") auto

function copy_i :: "grid \<Rightarrow> int \<Rightarrow> grid \<Rightarrow> error + grid" where
  "copy_i mapGrid i newMapGrid =
     (if i < numberOfSeparators then
        (case copy_j mapGrid i 0 newMapGrid of
           Inl e \<Rightarrow> Inl e
         | Inr mapGrid' \<Rightarrow> copy_i mapGrid' (i + 1) newMapGrid)
      else Inr mapGrid)"
  by pat_completeness auto
termination
  by (relation "measure (\<lambda>(mapGrid, i, new). nat (numberOfSeparators - i))") auto

text \<open>
  Each of these equations calls its own function again, so none of them is a rewrite rule;
  the proofs unfold them one iteration at a time.
\<close>

declare count_y.simps [simp del] count_x.simps [simp del]
declare step_j.simps [simp del] step_i.simps [simp del]
declare copy_j.simps [simp del] copy_i.simps [simp del]

text \<open>\<^verbatim>\<open>bool newMapGrid[N][N] = { false };\<close> sets every cell to false.\<close>

definition emptyGrid :: grid where
  "emptyGrid = replicate (nat numberOfSeparators) (replicate (nat numberOfSeparators) False)"

text \<open>One generation: the block guarded by \<^verbatim>\<open>if (simulationRunning)\<close> in the main loop.\<close>

definition step :: "grid \<Rightarrow> error + grid" where
  "step mapGrid =
     (case step_i mapGrid 0 emptyGrid of
        Inl e \<Rightarrow> Inl e
      | Inr newMapGrid \<Rightarrow> copy_i mapGrid 0 newMapGrid)"

section \<open>The render list\<close>

text \<open>
  \<^verbatim>\<open>struct vec2 { float x; float y; }\<close> and the one field of \<^verbatim>\<open>class Squares\<close> that the
  simulation writes, \<^verbatim>\<open>std::vector<vec2> translations\<close>. The fields of \<open>vec2\<close> carry a
  prefix here because \<open>x\<close> and \<open>y\<close> are loop variables elsewhere, and the vector is
  the field \<open>translations_vec\<close> because its own name is a reserved word of the prover.
  A \<^verbatim>\<open>float\<close> is idealised as a real number: sums, products and quotients are exact,
  rounding is not modelled.
\<close>

record vec2 =
  vec_x :: real
  vec_y :: real

record squares =
  translations_vec :: "vec2 list"

definition viewPortLeft :: real where
  "viewPortLeft = - 1"

definition viewPortBottom :: real where
  "viewPortBottom = - 1"

definition viewPortSize :: real where
  "viewPortSize = 2"

definition gridSquareSize :: real where
  "gridSquareSize = viewPortSize / real_of_int numberOfSeparators"

definition clearTranslations :: "squares \<Rightarrow> squares" where
  "clearTranslations sq = sq\<lparr>translations_vec := []\<rparr>"

definition addTranslation :: "squares \<Rightarrow> real \<Rightarrow> real \<Rightarrow> squares" where
  "addTranslation sq tx ty =
     sq\<lparr>translations_vec := translations_vec sq @ [\<lparr>vec_x = tx, vec_y = ty\<rparr>]\<rparr>"

text \<open>
  The rebuild of the list, once per frame:
  \<^verbatim>\<open>
  square.clearTranslations();
  for (int i = 0; i < N; i++)
      for (int j = 0; j < N; j++)
          if (mapGrid[i][j]) {
              float x = viewPortLeft + gridSquareSize * j;
              float y = viewPortBottom + gridSquareSize * i;
              square.addTranslation(x, y);
          }\<close>
  The first version of the program writes the same two values as
  \<^verbatim>\<open>-1.0f + (2.0f / numberOfSeparators) * j\<close> and \<^verbatim>\<open>-1.0f + (2.0f / numberOfSeparators) * i\<close>.
\<close>

function rebuild_j :: "grid \<Rightarrow> int \<Rightarrow> int \<Rightarrow> squares \<Rightarrow> error + squares" where
  "rebuild_j mapGrid i j square =
     (if j < numberOfSeparators then
        (case grid_at mapGrid i j of
           None \<Rightarrow> Inl OutOfBounds
         | Some alive \<Rightarrow>
            if alive
            then rebuild_j mapGrid i (j + 1)
                   (addTranslation square
                      (viewPortLeft + gridSquareSize * real_of_int j)
                      (viewPortBottom + gridSquareSize * real_of_int i))
            else rebuild_j mapGrid i (j + 1) square)
      else Inr square)"
  by pat_completeness auto
termination
  by (relation "measure (\<lambda>(mapGrid, i, j, sq). nat (numberOfSeparators - j))") auto

function rebuild_i :: "grid \<Rightarrow> int \<Rightarrow> squares \<Rightarrow> error + squares" where
  "rebuild_i mapGrid i square =
     (if i < numberOfSeparators then
        (case rebuild_j mapGrid i 0 square of
           Inl e \<Rightarrow> Inl e
         | Inr square' \<Rightarrow> rebuild_i mapGrid (i + 1) square')
      else Inr square)"
  by pat_completeness auto
termination
  by (relation "measure (\<lambda>(mapGrid, i, sq). nat (numberOfSeparators - i))") auto

declare rebuild_j.simps [simp del] rebuild_i.simps [simp del]

definition rebuild :: "grid \<Rightarrow> squares \<Rightarrow> error + squares" where
  "rebuild mapGrid square = rebuild_i mapGrid 0 (clearTranslations square)"

section \<open>The mouse callback\<close>

text \<open>
  The program state that the callbacks and the main loop share: the two globals.
\<close>

record state =
  mapGrid :: grid
  simulationRunning :: bool

text \<open>
  Two constants of the GLFW header, which is not part of the repository; the values are the
  ones GLFW documents.
\<close>

definition GLFW_MOUSE_BUTTON_LEFT :: int where
  "GLFW_MOUSE_BUTTON_LEFT = 0"

definition GLFW_PRESS :: int where
  "GLFW_PRESS = 1"

definition windowWidth :: int where
  "windowWidth = 1200"

definition windowHeight :: int where
  "windowHeight = 1200"

text \<open>
  The cursor position is a pair of C \<^verbatim>\<open>double\<close>s, and the callback divides and multiplies
  them as doubles before the cast. A finite double is modelled as the real number it
  denotes, and every arithmetic operation of the callback as the exact operation followed
  by \<open>double_round\<close>, the rounding of IEEE 754 binary64 to the nearest value with 53
  significant bits, ties to the even significand, with gradual underflow below
  \<open>2 powi (- 1022)\<close>. The \<^verbatim>\<open>int\<close> operands \<^verbatim>\<open>windowWidth\<close>, \<^verbatim>\<open>windowHeight\<close>, \<^verbatim>\<open>1200\<close>
  and \<^verbatim>\<open>numberOfSeparators\<close> and the literal \<^verbatim>\<open>1200.0f\<close> convert to doubles without
  rounding. On a finite cursor position no operation of the callback overflows; on a real
  number beyond the doubles \<open>double_round\<close> stays finite, and the cast below then fails as
  it would on an infinity.
\<close>

definition round_half_even :: "real \<Rightarrow> int" where
  "round_half_even r =
     (let f = \<lfloor>r\<rfloor>; d = r - of_int f
      in if d < 1 / 2 then f
         else if 1 / 2 < d then f + 1
         else if even f then f else f + 1)"

text \<open>
  The exponent of the binade of \<open>v\<close>: the greatest \<open>e\<close> from \<open>- 1022\<close> to \<open>1023\<close> with
  \<open>2 powi e \<le> \<bar>v\<bar>\<close>, and \<open>- 1022\<close> for the subnormal numbers and zero.
\<close>

definition double_exponent :: "real \<Rightarrow> int" where
  "double_exponent v =
     fold (\<lambda>e acc. if 2 powi e \<le> \<bar>v\<bar> then e else acc) [- 1021 .. 1023] (- 1022)"

definition double_round :: "real \<Rightarrow> real" where
  "double_round v =
     (let u = 2 powi (double_exponent v - 52)
      in of_int (round_half_even (v / u)) * u)"

text \<open>
  The cast \<^verbatim>\<open>(int)v\<close> discards the fractional part, that is, it rounds toward zero; it is
  undefined when the result does not fit a 32-bit \<^verbatim>\<open>int\<close>, which the model reports as
  \<open>None\<close>.
\<close>

definition c_int_cast :: "real \<Rightarrow> int option" where
  "c_int_cast v =
     (let t = (if 0 \<le> v then \<lfloor>v\<rfloor> else \<lceil>v\<rceil>)
      in if - 2147483648 \<le> t \<and> t \<le> 2147483647 then Some t else None)"

text \<open>The statement \<^verbatim>\<open>mapGrid[y][x] = !mapGrid[y][x];\<close>\<close>

definition toggle_cell :: "state \<Rightarrow> int \<Rightarrow> int \<Rightarrow> error + state" where
  "toggle_cell st y x =
     (case grid_at (mapGrid st) y x of
        None \<Rightarrow> Inl OutOfBounds
      | Some alive \<Rightarrow>
         (case grid_set (mapGrid st) y x (\<not> alive) of
            None \<Rightarrow> Inl OutOfBounds
          | Some g \<Rightarrow> Inr (st\<lparr>mapGrid := g\<rparr>)))"

text \<open>
  The two casts of the second version of the program,
  \<^verbatim>\<open>int x = (int)( (xpos / windowWidth) * numberOfSeparators );\<close> and
  \<^verbatim>\<open>int y = (int)( ( (windowHeight - ypos ) / windowHeight) * numberOfSeparators );\<close>
\<close>

definition cursor_x :: "real \<Rightarrow> int option" where
  "cursor_x xpos =
     c_int_cast (double_round (double_round (xpos / real_of_int windowWidth)
                               * real_of_int numberOfSeparators))"

definition cursor_y :: "real \<Rightarrow> int option" where
  "cursor_y ypos =
     c_int_cast (double_round
                   (double_round (double_round (real_of_int windowHeight - ypos)
                                  / real_of_int windowHeight)
                    * real_of_int numberOfSeparators))"

text \<open>
  The callback of the second version. Its arguments \<^verbatim>\<open>window\<close> and \<^verbatim>\<open>mods\<close> are left
  out: the first is only used to ask for the cursor position, which is passed here as
  \<open>xpos\<close> and \<open>ypos\<close>, the second is not used.
  \<^verbatim>\<open>
  if (simulationRunning) return;
  if (button == GLFW_MOUSE_BUTTON_LEFT && action == GLFW_PRESS) {
      int x = ...; int y = ...;
      if (x < 0 || x >= numberOfSeparators || y < 0 || y >= numberOfSeparators) return;
      mapGrid[y][x] = !mapGrid[y][x];
  }\<close>
\<close>

definition mouse_button_callback :: "state \<Rightarrow> int \<Rightarrow> int \<Rightarrow> real \<Rightarrow> real \<Rightarrow> error + state" where
  "mouse_button_callback st button action xpos ypos =
     (if simulationRunning st then Inr st
      else if button = GLFW_MOUSE_BUTTON_LEFT \<and> action = GLFW_PRESS then
        (case cursor_x xpos of
           None \<Rightarrow> Inl CastOverflow
         | Some x \<Rightarrow>
            (case cursor_y ypos of
               None \<Rightarrow> Inl CastOverflow
             | Some y \<Rightarrow>
                if x < 0 \<or> x \<ge> numberOfSeparators \<or> y < 0 \<or> y \<ge> numberOfSeparators
                then Inr st
                else toggle_cell st y x))
      else Inr st)"

text \<open>
  The first version: the window size is the literal \<^verbatim>\<open>1200.0f\<close>, and there is no test
  of \<open>x\<close> and \<open>y\<close> before the array is written.
  \<^verbatim>\<open>
  if (simulationRunning) return;
  if (button == GLFW_MOUSE_BUTTON_LEFT && action == GLFW_PRESS) {
      int x = (int)( (xpos / 1200.0f) * numberOfSeparators );
      int y = (int)( ( ( 1200 - ypos ) / 1200.0f) * numberOfSeparators );
      mapGrid[y][x] = !mapGrid[y][x];
  }\<close>
\<close>

definition mouse_button_callback_v1 :: "state \<Rightarrow> int \<Rightarrow> int \<Rightarrow> real \<Rightarrow> real \<Rightarrow> error + state" where
  "mouse_button_callback_v1 st button action xpos ypos =
     (if simulationRunning st then Inr st
      else if button = GLFW_MOUSE_BUTTON_LEFT \<and> action = GLFW_PRESS then
        (case c_int_cast (double_round (double_round (xpos / 1200)
                                        * real_of_int numberOfSeparators)) of
           None \<Rightarrow> Inl CastOverflow
         | Some x \<Rightarrow>
            (case c_int_cast (double_round
                                (double_round (double_round (1200 - ypos) / 1200)
                                 * real_of_int numberOfSeparators)) of
               None \<Rightarrow> Inl CastOverflow
             | Some y \<Rightarrow> toggle_cell st y x))
      else Inr st)"

text \<open>The state in which the program starts: every cell dead, the simulation paused.\<close>

definition initial_state :: state where
  "initial_state = \<lparr>mapGrid = emptyGrid, simulationRunning = False\<rparr>"

section \<open>One frame of the main loop\<close>

text \<open>
  What the main loop does to the grid and to the list in one frame that is due: a
  generation if the simulation runs, then the rebuild. The calls into OpenGL and GLFW
  around it do not touch either.
\<close>

definition main_frame :: "state \<Rightarrow> squares \<Rightarrow> error + (state \<times> squares)" where
  "main_frame st square =
     (case (if simulationRunning st
            then (case step (mapGrid st) of
                    Inl e \<Rightarrow> Inl e
                  | Inr g \<Rightarrow> Inr (st\<lparr>mapGrid := g\<rparr>))
            else Inr st) of
        Inl e \<Rightarrow> Inl e
      | Inr st' \<Rightarrow>
         (case rebuild (mapGrid st') square of
            Inl e \<Rightarrow> Inl e
          | Inr square' \<Rightarrow> Inr (st', square')))"

section \<open>The reference step, in the words of the specification\<close>

text \<open>
  The definitions of this section do not come from the code. They write down what the
  specification says a generation is, so that the loops above can be compared with it:
  the eight offsets, the count of alive cells among those offsets whose target lies inside
  the grid, the rule, and the pure step that applies the rule to every cell of one snapshot.
\<close>

definition offsets8 :: "(int \<times> int) list" where
  "offsets8 = [(-1, -1), (-1, 0), (-1, 1), (0, -1), (0, 1), (1, -1), (1, 0), (1, 1)]"

definition spec_neighbours :: "grid \<Rightarrow> int \<Rightarrow> int \<Rightarrow> int" where
  "spec_neighbours g i j =
     int (length (filter
       (\<lambda>(di, dj). 0 \<le> i + di \<and> i + di < numberOfSeparators \<and>
                   0 \<le> j + dj \<and> j + dj < numberOfSeparators \<and>
                   g ! nat (i + di) ! nat (j + dj)) offsets8))"

definition spec_rule :: "bool \<Rightarrow> int \<Rightarrow> bool" where
  "spec_rule alive n =
     (if alive \<and> (n < 2 \<or> n > 3) then False
      else if \<not> alive \<and> n = 3 then True
      else alive)"

definition next_cell :: "grid \<Rightarrow> int \<Rightarrow> int \<Rightarrow> bool" where
  "next_cell g i j = spec_rule (g ! nat i ! nat j) (spec_neighbours g i j)"

definition spec_step :: "grid \<Rightarrow> grid" where
  "spec_step g =
     map (\<lambda>i. map (\<lambda>j. next_cell g i j) [0 .. numberOfSeparators - 1])
         [0 .. numberOfSeparators - 1]"

text \<open>One if the cell exists and is alive, zero otherwise: a term of the neighbour count.\<close>

definition alive1 :: "grid \<Rightarrow> int \<Rightarrow> int \<Rightarrow> int" where
  "alive1 g i j = (if grid_at g i j = Some True then 1 else 0)"

text \<open>The grid whose alive cells are the listed ones (those of them that lie inside).\<close>

definition grid_of :: "(int \<times> int) list \<Rightarrow> grid" where
  "grid_of cells =
     map (\<lambda>i. map (\<lambda>j. (i, j) \<in> set cells) [0 .. numberOfSeparators - 1])
         [0 .. numberOfSeparators - 1]"

text \<open>The offset that one alive cell adds to the list, a name for the body of the loop.\<close>

definition cell_offset :: "int \<Rightarrow> int \<Rightarrow> vec2" where
  "cell_offset i j =
     \<lparr>vec_x = viewPortLeft + gridSquareSize * real_of_int j,
      vec_y = viewPortBottom + gridSquareSize * real_of_int i\<rparr>"

text \<open>The same offset as the first version of the program spells it, with literals.\<close>

definition cell_offset_v1 :: "int \<Rightarrow> int \<Rightarrow> vec2" where
  "cell_offset_v1 i j =
     \<lparr>vec_x = - 1 + (2 / real_of_int numberOfSeparators) * real_of_int j,
      vec_y = - 1 + (2 / real_of_int numberOfSeparators) * real_of_int i\<rparr>"

text \<open>A line of three cells around \<open>(r, c)\<close>, lying and standing.\<close>

definition horizontal_line :: "int \<Rightarrow> int \<Rightarrow> (int \<times> int) list" where
  "horizontal_line r c = [(r, c - 1), (r, c), (r, c + 1)]"

definition vertical_line :: "int \<Rightarrow> int \<Rightarrow> (int \<times> int) list" where
  "vertical_line r c = [(r - 1, c), (r, c), (r + 1, c)]"

text \<open>
  The alive coordinates in row-major order, as the specification describes the sequence
  that is rebuilt each frame: all cells row by row, keeping the alive ones.
\<close>

definition spec_aliveCells :: "grid \<Rightarrow> (int \<times> int) list" where
  "spec_aliveCells g =
     filter (\<lambda>(i, j). g ! nat i ! nat j)
       (List.product [0 .. numberOfSeparators - 1] [0 .. numberOfSeparators - 1])"

definition row_major_less :: "int \<times> int \<Rightarrow> int \<times> int \<Rightarrow> bool" where
  "row_major_less p q \<longleftrightarrow> fst p < fst q \<or> (fst p = fst q \<and> snd p < snd q)"

text \<open>
  The two mappings of the specification's coordinate mapper, in its words: from a device
  position to a cell, with \<open>floor\<close> and "none" outside the grid, and from a cell to its
  render offset, with the viewport \<open>[-1, 1]\<close>.
\<close>

definition spec_deviceToCell :: "real \<Rightarrow> real \<Rightarrow> real \<Rightarrow> real \<Rightarrow> (int \<times> int) option" where
  "spec_deviceToCell px py w h =
     (let row = \<lfloor>((h - py) / h) * real_of_int numberOfSeparators\<rfloor>;
          col = \<lfloor>(px / w) * real_of_int numberOfSeparators\<rfloor>
      in if 0 \<le> row \<and> row < numberOfSeparators \<and> 0 \<le> col \<and> col < numberOfSeparators
         then Some (row, col) else None)"

definition spec_cellToOffset :: "int \<Rightarrow> int \<Rightarrow> vec2" where
  "spec_cellToOffset row col =
     (let viewportLeft = - 1; viewportBottom = - 1; viewportRight = 1;
          viewportSize = viewportRight - viewportLeft;
          cellSize = viewportSize / real_of_int numberOfSeparators
      in \<lparr>vec_x = viewportLeft + cellSize * real_of_int col,
          vec_y = viewportBottom + cellSize * real_of_int row\<rparr>)"

text \<open>Truncation toward zero, the rounding of a C cast, without the range of \<^verbatim>\<open>int\<close>.\<close>

definition trunc_toward_zero :: "real \<Rightarrow> int" where
  "trunc_toward_zero v = (if 0 \<le> v then \<lfloor>v\<rfloor> else - \<lfloor>- v\<rfloor>)"

section \<open>Array accesses on well-formed grids\<close>

lemma wf_grid_length: "wf_grid g \<Longrightarrow> int (length g) = numberOfSeparators"
  by (simp add: wf_grid_def)

lemma wf_grid_row:
  assumes "wf_grid g" "0 \<le> i" "i < numberOfSeparators"
  shows "int (length (g ! nat i)) = numberOfSeparators"
proof -
  from assms have "nat i < length g" by (simp add: wf_grid_def nat_less_iff)
  with assms(1) show ?thesis by (simp add: wf_grid_def list_all_length)
qed

lemma grid_at_in: "wf_grid g \<Longrightarrow> 0 \<le> i \<Longrightarrow> i < numberOfSeparators \<Longrightarrow> 0 \<le> j \<Longrightarrow> j < numberOfSeparators
   \<Longrightarrow> grid_at g i j = Some (g ! nat i ! nat j)"
  by (simp add: grid_at_def wf_grid_length wf_grid_row)

lemma grid_at_out: "wf_grid g \<Longrightarrow> i < 0 \<or> numberOfSeparators \<le> i \<or> j < 0 \<or> numberOfSeparators \<le> j 
   \<Longrightarrow> grid_at g i j = None"
  by (auto simp add: grid_at_def wf_grid_length wf_grid_row)

lemma alive1_spec:
  "wf_grid g \<Longrightarrow> alive1 g i j =
     (if 0 \<le> i \<and> i < numberOfSeparators \<and> 0 \<le> j \<and> j < numberOfSeparators \<and> g ! nat i ! nat j
      then 1 else 0)"
  by (cases "0 \<le> i \<and> i < numberOfSeparators \<and> 0 \<le> j \<and> j < numberOfSeparators")
     (auto simp add: alive1_def grid_at_in grid_at_out)

section \<open>The neighbour scan returns the count of the specification\<close>

lemma count_y_stop: "1 < y \<Longrightarrow> count_y g i j x y a = Inr a"
  by (subst count_y.simps) simp

lemma count_y_cell:
  assumes "wf_grid g" "0 \<le> i + x" "i + x < numberOfSeparators" "y \<le> 1"
  shows "count_y g i j x y a =
           count_y g i j x (y + 1) (if x = 0 \<and> y = 0 then a else a + alive1 g (i + x) (j + y))"
proof (cases "0 \<le> j + y \<and> j + y < numberOfSeparators")
  case True
  then show ?thesis using assms
    by (subst count_y.simps) (simp add: grid_at_in alive1_def)
next
  case False
  then have "grid_at g (i + x) (j + y) = None" using assms by (intro grid_at_out) auto
  with False assms show ?thesis
    by (subst count_y.simps) (auto simp add: alive1_def)
qed

lemma count_y_row:
  assumes "wf_grid g" "0 \<le> i + x" "i + x < numberOfSeparators"
  shows "count_y g i j x (- 1) a =
           Inr (a + alive1 g (i + x) (j - 1) + (if x = 0 then 0 else alive1 g (i + x) j)
                  + alive1 g (i + x) (j + 1))"
  using assms by (simp add: count_y_cell count_y_stop)

lemma count_x_stop: "1 < x \<Longrightarrow> count_x g i j x a = Inr a"
  by (subst count_x.simps) simp

lemma count_x_row:
  assumes "wf_grid g" "x \<le> 1"
  shows "count_x g i j x a =
           count_x g i j (x + 1)
             (a + alive1 g (i + x) (j - 1) + (if x = 0 then 0 else alive1 g (i + x) j)
                + alive1 g (i + x) (j + 1))"
proof (cases "0 \<le> i + x \<and> i + x < numberOfSeparators")
  case True
  then show ?thesis using assms
    by (subst count_x.simps) (simp add: count_y_row)
next
  case False
  then have "alive1 g (i + x) b = 0" for b
    using assms by (auto simp add: alive1_def grid_at_out)
  with False assms show ?thesis
    by (subst count_x.simps) auto
qed

lemma length_filter_sum:
  "int (length (filter P xs)) = sum_list (map (\<lambda>x. if P x then 1 else 0) xs)"
  by (induction xs) simp_all

lemma count_x_neighbours:
  assumes "wf_grid g"
  shows "count_x g i j (- 1) 0 = Inr (spec_neighbours g i j)"
proof -
  have "count_x g i j (- 1) 0 =
          Inr (alive1 g (i - 1) (j - 1) + alive1 g (i - 1) j + alive1 g (i - 1) (j + 1)
             + alive1 g i (j - 1) + alive1 g i (j + 1)
             + alive1 g (i + 1) (j - 1) + alive1 g (i + 1) j + alive1 g (i + 1) (j + 1))"
    using assms by (simp add: count_x_row count_x_stop)
  also have "\<dots> = Inr (sum_list (map (\<lambda>(di, dj). alive1 g (i + di) (j + dj)) offsets8))"
    by (simp add: offsets8_def)
  also have "\<dots> = Inr (spec_neighbours g i j)"
    unfolding spec_neighbours_def length_filter_sum
    by (simp only: alive1_spec [OF assms] split_def)
  finally show ?thesis .
qed

section \<open>The loops of the step, cell by cell\<close>

lemma wf_grid_update:
  assumes "wf_grid g"
  shows "wf_grid (g[n := (g ! n)[m := v]])"
proof -
  have "length ((g[n := (g ! n)[m := v]]) ! k) = length (g ! k)" if "k < length g" for k
    using that by (cases "k = n") simp_all
  with assms show ?thesis
    by (simp add: wf_grid_def list_all_length)
qed

lemma grid_at_update:
  assumes "wf_grid g" "0 \<le> i" "i < numberOfSeparators" "0 \<le> j" "j < numberOfSeparators"
  shows "grid_at (g[nat i := (g ! nat i)[nat j := v]]) a b =
           (if a = i \<and> b = j then Some v else grid_at g a b)"
proof (cases "0 \<le> a \<and> a < numberOfSeparators \<and> 0 \<le> b \<and> b < numberOfSeparators")
  case inside: True
  have wf': "wf_grid (g[nat i := (g ! nat i)[nat j := v]])"
    using assms(1) by (rule wf_grid_update)
  have li: "nat i < length g" and lj: "nat j < length (g ! nat i)"
    using assms wf_grid_length [OF assms(1)] wf_grid_row [OF assms(1), of i] by linarith+
  have la: "nat a < length g"
    using inside wf_grid_length [OF assms(1)] by linarith
  have lhs: "grid_at (g[nat i := (g ! nat i)[nat j := v]]) a b =
               Some ((g[nat i := (g ! nat i)[nat j := v]]) ! nat a ! nat b)"
    using wf' inside by (simp add: grid_at_in)
  have rhs: "grid_at g a b = Some (g ! nat a ! nat b)"
    using assms(1) inside by (simp add: grid_at_in)
  show ?thesis
  proof (cases "a = i")
    case ai: True
    show ?thesis
    proof (cases "b = j")
      case True
      with ai li lj show ?thesis
        unfolding lhs rhs by simp
    next
      case False
      with inside assms have "nat b \<noteq> nat j" by (simp add: eq_nat_nat_iff)
      with ai li False show ?thesis
        unfolding lhs rhs by simp
    qed
  next
    case False
    with inside assms have "nat a \<noteq> nat i" by (simp add: eq_nat_nat_iff)
    with False la show ?thesis
      unfolding lhs rhs by simp
  qed
next
  case False
  then have out: "a < 0 \<or> numberOfSeparators \<le> a \<or> b < 0 \<or> numberOfSeparators \<le> b"
    by auto
  have "a \<noteq> i \<or> b \<noteq> j" using False assms by auto
  then show ?thesis
    using grid_at_out [OF wf_grid_update [OF assms(1)] out] grid_at_out [OF assms(1) out]
    by auto
qed

lemma grid_set_in:
  assumes "wf_grid g" "0 \<le> i" "i < numberOfSeparators" "0 \<le> j" "j < numberOfSeparators"
  shows "grid_set g i j v = Some (g[nat i := (g ! nat i)[nat j := v]])"
  using assms by (simp add: grid_set_def wf_grid_length wf_grid_row)

lemma step_j_inv:
  assumes "wf_grid g" "0 \<le> i" "i < numberOfSeparators"
  shows "wf_grid new \<Longrightarrow> 0 \<le> j \<Longrightarrow>
         \<exists>new'. step_j g i j new = Inr new' \<and> wf_grid new' \<and>
           (\<forall>a b. grid_at new' a b =
              (if a = i \<and> j \<le> b \<and> b < numberOfSeparators then Some (next_cell g i b)
               else grid_at new a b))"
proof (induction "nat (numberOfSeparators - j)" arbitrary: j new)
  case 0
  then have "\<not> j < numberOfSeparators" by simp
  with 0 show ?case
    by (subst step_j.simps) auto
next
  case (Suc n)
  then have jlt: "j < numberOfSeparators" by simp
  let ?v = "next_cell g i j"
  let ?new1 = "new[nat i := (new ! nat i)[nat j := ?v]]"
  have wf1: "wf_grid ?new1" using Suc.prems(1) by (rule wf_grid_update)
  have at1: "grid_at ?new1 a b = (if a = i \<and> b = j then Some ?v else grid_at new a b)" for a b
    using Suc.prems assms jlt by (intro grid_at_update) auto
  have unfold: "step_j g i j new = step_j g i (j + 1) ?new1"
    using assms Suc.prems jlt
    by (subst step_j.simps)
       (simp add: count_x_neighbours grid_at_in grid_set_in next_cell_def spec_rule_def)
  from Suc.hyps(2) have "n = nat (numberOfSeparators - (j + 1))" by simp
  from Suc.hyps(1) [OF this wf1] Suc.prems(2)
  obtain new' where r: "step_j g i (j + 1) ?new1 = Inr new'" "wf_grid new'"
    and at': "\<And>a b. grid_at new' a b =
              (if a = i \<and> j + 1 \<le> b \<and> b < numberOfSeparators then Some (next_cell g i b)
               else grid_at ?new1 a b)"
    by auto
  have "grid_at new' a b =
          (if a = i \<and> j \<le> b \<and> b < numberOfSeparators then Some (next_cell g i b)
           else grid_at new a b)" for a b
    using jlt by (auto simp add: at' at1)
  with r unfold show ?case by auto
qed

lemma step_i_inv:
  assumes "wf_grid g"
  shows "wf_grid new \<Longrightarrow> 0 \<le> i \<Longrightarrow>
         \<exists>new'. step_i g i new = Inr new' \<and> wf_grid new' \<and>
           (\<forall>a b. grid_at new' a b =
              (if i \<le> a \<and> a < numberOfSeparators \<and> 0 \<le> b \<and> b < numberOfSeparators
               then Some (next_cell g a b) else grid_at new a b))"
proof (induction "nat (numberOfSeparators - i)" arbitrary: i new)
  case 0
  then have "\<not> i < numberOfSeparators" by simp
  with 0 show ?case
    by (subst step_i.simps) auto
next
  case (Suc n)
  then have ilt: "i < numberOfSeparators" by simp
  from step_j_inv [OF assms Suc.prems(2) ilt Suc.prems(1), of 0]
  obtain new1 where r1: "step_j g i 0 new = Inr new1" "wf_grid new1"
    and at1: "\<And>a b. grid_at new1 a b =
               (if a = i \<and> 0 \<le> b \<and> b < numberOfSeparators then Some (next_cell g i b)
                else grid_at new a b)"
    by auto
  have unfold: "step_i g i new = step_i g (i + 1) new1"
    using ilt r1 by (subst step_i.simps) simp
  from Suc.hyps(2) have "n = nat (numberOfSeparators - (i + 1))" by simp
  from Suc.hyps(1) [OF this r1(2)] Suc.prems(2)
  obtain new' where r: "step_i g (i + 1) new1 = Inr new'" "wf_grid new'"
    and at': "\<And>a b. grid_at new' a b =
              (if i + 1 \<le> a \<and> a < numberOfSeparators \<and> 0 \<le> b \<and> b < numberOfSeparators
               then Some (next_cell g a b) else grid_at new1 a b)"
    by auto
  have "grid_at new' a b =
          (if i \<le> a \<and> a < numberOfSeparators \<and> 0 \<le> b \<and> b < numberOfSeparators
           then Some (next_cell g a b) else grid_at new a b)" for a b
    using ilt by (auto simp add: at' at1)
  with r unfold show ?case by auto
qed

lemma copy_j_inv:
  assumes "wf_grid new" "0 \<le> i" "i < numberOfSeparators"
  shows "wf_grid m \<Longrightarrow> 0 \<le> j \<Longrightarrow>
         \<exists>m'. copy_j m i j new = Inr m' \<and> wf_grid m' \<and>
           (\<forall>a b. grid_at m' a b =
              (if a = i \<and> j \<le> b \<and> b < numberOfSeparators then grid_at new a b
               else grid_at m a b))"
proof (induction "nat (numberOfSeparators - j)" arbitrary: j m)
  case 0
  then have "\<not> j < numberOfSeparators" by simp
  with 0 show ?case
    by (subst copy_j.simps) auto
next
  case (Suc n)
  then have jlt: "j < numberOfSeparators" by simp
  let ?v = "new ! nat i ! nat j"
  let ?m1 = "m[nat i := (m ! nat i)[nat j := ?v]]"
  have rd: "grid_at new i j = Some ?v"
    using assms Suc.prems jlt by (simp add: grid_at_in)
  have wf1: "wf_grid ?m1" using Suc.prems(1) by (rule wf_grid_update)
  have at1: "grid_at ?m1 a b = (if a = i \<and> b = j then Some ?v else grid_at m a b)" for a b
    using Suc.prems assms jlt by (intro grid_at_update) auto
  have unfold: "copy_j m i j new = copy_j ?m1 i (j + 1) new"
    using assms Suc.prems jlt
    by (subst copy_j.simps) (simp add: rd grid_set_in)
  from Suc.hyps(2) have "n = nat (numberOfSeparators - (j + 1))" by simp
  from Suc.hyps(1) [OF this wf1] Suc.prems(2)
  obtain m' where r: "copy_j ?m1 i (j + 1) new = Inr m'" "wf_grid m'"
    and at': "\<And>a b. grid_at m' a b =
              (if a = i \<and> j + 1 \<le> b \<and> b < numberOfSeparators then grid_at new a b
               else grid_at ?m1 a b)"
    by auto
  have "grid_at m' a b =
          (if a = i \<and> j \<le> b \<and> b < numberOfSeparators then grid_at new a b
           else grid_at m a b)" for a b
    using jlt rd by (auto simp add: at' at1)
  with r unfold show ?case by auto
qed

lemma copy_i_inv:
  assumes "wf_grid new"
  shows "wf_grid m \<Longrightarrow> 0 \<le> i \<Longrightarrow>
         \<exists>m'. copy_i m i new = Inr m' \<and> wf_grid m' \<and>
           (\<forall>a b. grid_at m' a b =
              (if i \<le> a \<and> a < numberOfSeparators \<and> 0 \<le> b \<and> b < numberOfSeparators
               then grid_at new a b else grid_at m a b))"
proof (induction "nat (numberOfSeparators - i)" arbitrary: i m)
  case 0
  then have "\<not> i < numberOfSeparators" by simp
  with 0 show ?case
    by (subst copy_i.simps) auto
next
  case (Suc n)
  then have ilt: "i < numberOfSeparators" by simp
  from copy_j_inv [OF assms Suc.prems(2) ilt Suc.prems(1), of 0]
  obtain m1 where r1: "copy_j m i 0 new = Inr m1" "wf_grid m1"
    and at1: "\<And>a b. grid_at m1 a b =
               (if a = i \<and> 0 \<le> b \<and> b < numberOfSeparators then grid_at new a b
                else grid_at m a b)"
    by auto
  have unfold: "copy_i m i new = copy_i m1 (i + 1) new"
    using ilt r1 by (subst copy_i.simps) simp
  from Suc.hyps(2) have "n = nat (numberOfSeparators - (i + 1))" by simp
  from Suc.hyps(1) [OF this r1(2)] Suc.prems(2)
  obtain m' where r: "copy_i m1 (i + 1) new = Inr m'" "wf_grid m'"
    and at': "\<And>a b. grid_at m' a b =
              (if i + 1 \<le> a \<and> a < numberOfSeparators \<and> 0 \<le> b \<and> b < numberOfSeparators
               then grid_at new a b else grid_at m1 a b)"
    by auto
  have "grid_at m' a b =
          (if i \<le> a \<and> a < numberOfSeparators \<and> 0 \<le> b \<and> b < numberOfSeparators
           then grid_at new a b else grid_at m a b)" for a b
    using ilt by (auto simp add: at' at1)
  with r unfold show ?case by auto
qed

section \<open>The step is the reference step\<close>

lemma numberOfSeparators_pos: "0 < numberOfSeparators"
  by (simp add: numberOfSeparators_def)

lemma wf_emptyGrid: "wf_grid emptyGrid"
  using numberOfSeparators_pos by (simp add: wf_grid_def emptyGrid_def list_all_length)

lemma grid_ext:
  assumes "wf_grid g" "wf_grid h"
    and eq: "\<And>a b. 0 \<le> a \<Longrightarrow> a < numberOfSeparators \<Longrightarrow> 0 \<le> b \<Longrightarrow> b < numberOfSeparators
               \<Longrightarrow> grid_at g a b = grid_at h a b"
  shows "g = h"
proof (rule nth_equalityI)
  show len: "length g = length h"
    using wf_grid_length [OF assms(1)] wf_grid_length [OF assms(2)] by simp
  fix n assume n: "n < length g"
  then have nr: "0 \<le> int n" "int n < numberOfSeparators"
    using wf_grid_length [OF assms(1)] by simp_all
  show "g ! n = h ! n"
  proof (rule nth_equalityI)
    show "length (g ! n) = length (h ! n)"
      using wf_grid_row [OF assms(1) nr] wf_grid_row [OF assms(2) nr] by simp
    fix k assume "k < length (g ! n)"
    then have kr: "0 \<le> int k" "int k < numberOfSeparators"
      using wf_grid_row [OF assms(1) nr] by simp_all
    from eq [OF nr kr] show "g ! n ! k = h ! n ! k"
      using grid_at_in [OF assms(1) nr kr] grid_at_in [OF assms(2) nr kr] by simp
  qed
qed

lemma wf_spec_step: "wf_grid (spec_step g)"
  using numberOfSeparators_pos
  by (simp add: wf_grid_def spec_step_def list_all_length)

lemma grid_at_spec_step:
  assumes "0 \<le> a" "a < numberOfSeparators" "0 \<le> b" "b < numberOfSeparators"
  shows "grid_at (spec_step g) a b = Some (next_cell g a b)"
proof -
  have "spec_step g ! nat a ! nat b = next_cell g a b"
    using assms by (simp add: spec_step_def next_cell_def)
  with grid_at_in [OF wf_spec_step assms, of g] show ?thesis by simp
qed

lemma step_refines:
  assumes "wf_grid g"
  shows "step g = Inr (spec_step g)"
proof -
  from step_i_inv [OF assms wf_emptyGrid, of 0]
  obtain new where n: "step_i g 0 emptyGrid = Inr new" "wf_grid new"
    and atn: "\<And>a b. grid_at new a b =
               (if 0 \<le> a \<and> a < numberOfSeparators \<and> 0 \<le> b \<and> b < numberOfSeparators
                then Some (next_cell g a b) else grid_at emptyGrid a b)"
    by auto
  from copy_i_inv [OF n(2) assms, of 0]
  obtain m where m: "copy_i g 0 new = Inr m" "wf_grid m"
    and atm: "\<And>a b. grid_at m a b =
               (if 0 \<le> a \<and> a < numberOfSeparators \<and> 0 \<le> b \<and> b < numberOfSeparators
                then grid_at new a b else grid_at g a b)"
    by auto
  have "m = spec_step g"
    using m(2) wf_spec_step
    by (rule grid_ext) (simp add: atm atn grid_at_spec_step)
  with n m show ?thesis by (simp add: step_def)
qed

section \<open>Grids given by their alive cells\<close>

lemma spec_neighbours_bounds: "0 \<le> spec_neighbours g i j \<and> spec_neighbours g i j \<le> 8"
proof -
  have "length (filter P offsets8) \<le> 8" for P
    using length_filter_le [of P offsets8] by (simp add: offsets8_def)
  then show ?thesis by (simp add: spec_neighbours_def)
qed

lemma neighbours_sum:
  assumes "wf_grid g"
  shows "spec_neighbours g i j =
           alive1 g (i - 1) (j - 1) + alive1 g (i - 1) j + alive1 g (i - 1) (j + 1)
         + alive1 g i (j - 1) + alive1 g i (j + 1)
         + alive1 g (i + 1) (j - 1) + alive1 g (i + 1) j + alive1 g (i + 1) (j + 1)"
proof -
  have "spec_neighbours g i j = sum_list (map (\<lambda>(di, dj). alive1 g (i + di) (j + dj)) offsets8)"
    unfolding spec_neighbours_def length_filter_sum
    by (simp only: alive1_spec [OF assms] split_def)
  then show ?thesis by (simp add: offsets8_def)
qed

lemma wf_grid_of: "wf_grid (grid_of cells)"
  using numberOfSeparators_pos
  by (simp add: wf_grid_def grid_of_def list_all_length)

lemma grid_at_grid_of:
  "grid_at (grid_of cells) a b =
     (if 0 \<le> a \<and> a < numberOfSeparators \<and> 0 \<le> b \<and> b < numberOfSeparators
      then Some ((a, b) \<in> set cells) else None)"
proof (cases "0 \<le> a \<and> a < numberOfSeparators \<and> 0 \<le> b \<and> b < numberOfSeparators")
  case True
  then have "grid_of cells ! nat a ! nat b = ((a, b) \<in> set cells)"
    by (simp add: grid_of_def)
  with True grid_at_in [OF wf_grid_of, of a b cells] show ?thesis by simp
next
  case False
  then have "a < 0 \<or> numberOfSeparators \<le> a \<or> b < 0 \<or> numberOfSeparators \<le> b" by auto
  from grid_at_out [OF wf_grid_of this] False show ?thesis by simp
qed

lemma alive1_grid_of:
  "alive1 (grid_of cells) a b =
     (if 0 \<le> a \<and> a < numberOfSeparators \<and> 0 \<le> b \<and> b < numberOfSeparators \<and> (a, b) \<in> set cells
      then 1 else 0)"
  by (simp add: alive1_def grid_at_grid_of)

lemma next_cell_grid_of:
  assumes "0 \<le> a" "a < numberOfSeparators" "0 \<le> b" "b < numberOfSeparators"
  shows "next_cell (grid_of cells) a b =
           spec_rule ((a, b) \<in> set cells)
             (alive1 (grid_of cells) (a - 1) (b - 1) + alive1 (grid_of cells) (a - 1) b
            + alive1 (grid_of cells) (a - 1) (b + 1)
            + alive1 (grid_of cells) a (b - 1) + alive1 (grid_of cells) a (b + 1)
            + alive1 (grid_of cells) (a + 1) (b - 1) + alive1 (grid_of cells) (a + 1) b
            + alive1 (grid_of cells) (a + 1) (b + 1))"
proof -
  have "grid_of cells ! nat a ! nat b = ((a, b) \<in> set cells)"
    using grid_at_in [OF wf_grid_of assms, of cells] assms by (simp add: grid_at_grid_of)
  then show ?thesis
    by (simp add: next_cell_def neighbours_sum [OF wf_grid_of])
qed

lemma step_grid_of:
  assumes "\<And>a b. 0 \<le> a \<Longrightarrow> a < numberOfSeparators \<Longrightarrow> 0 \<le> b \<Longrightarrow> b < numberOfSeparators
             \<Longrightarrow> next_cell (grid_of cells) a b = ((a, b) \<in> set cells')"
  shows "step (grid_of cells) = Inr (grid_of cells')"
proof -
  have "spec_step (grid_of cells) = grid_of cells'"
    using wf_spec_step wf_grid_of
    by (rule grid_ext) (simp add: grid_at_spec_step grid_at_grid_of assms)
  then show ?thesis by (simp add: step_refines [OF wf_grid_of])
qed

lemma hline_next:
  assumes "1 \<le> r" "r \<le> numberOfSeparators - 2" "1 \<le> c" "c \<le> numberOfSeparators - 2"
    and "0 \<le> a" "a < numberOfSeparators" "0 \<le> b" "b < numberOfSeparators"
  shows "next_cell (grid_of (horizontal_line r c)) a b = ((a, b) \<in> set (vertical_line r c))"
proof -
  have ca: "a < r - 1 \<or> a = r - 1 \<or> a = r \<or> a = r + 1 \<or> r + 1 < a" by arith
  have cb: "b < c - 2 \<or> b = c - 2 \<or> b = c - 1 \<or> b = c \<or> b = c + 1 \<or> b = c + 2 \<or> c + 2 < b"
    by arith
  show ?thesis
    unfolding next_cell_grid_of [OF assms(5-8)]
    using ca cb assms
    by (elim disjE)
       (simp_all add: alive1_grid_of horizontal_line_def vertical_line_def spec_rule_def)
qed

lemma vline_next:
  assumes "1 \<le> r" "r \<le> numberOfSeparators - 2" "1 \<le> c" "c \<le> numberOfSeparators - 2"
    and "0 \<le> a" "a < numberOfSeparators" "0 \<le> b" "b < numberOfSeparators"
  shows "next_cell (grid_of (vertical_line r c)) a b = ((a, b) \<in> set (horizontal_line r c))"
proof -
  have ca: "a < r - 2 \<or> a = r - 2 \<or> a = r - 1 \<or> a = r \<or> a = r + 1 \<or> a = r + 2 \<or> r + 2 < a"
    by arith
  have cb: "b < c - 1 \<or> b = c - 1 \<or> b = c \<or> b = c + 1 \<or> c + 1 < b"
    by arith
  show ?thesis
    unfolding next_cell_grid_of [OF assms(5-8)]
    using ca cb assms
    by (elim disjE)
       (simp_all add: alive1_grid_of horizontal_line_def vertical_line_def spec_rule_def)
qed

lemma set_spec_aliveCells:
  assumes "wf_grid g"
  shows "set (spec_aliveCells g) = {(i, j). grid_at g i j = Some True}"
proof -
  have "grid_at g i j = Some True \<longleftrightarrow>
          0 \<le> i \<and> i < numberOfSeparators \<and> 0 \<le> j \<and> j < numberOfSeparators \<and> g ! nat i ! nat j"
    for i j
    using grid_at_in [OF assms, of i j] grid_at_out [OF assms, of i j]
    by (cases "0 \<le> i \<and> i < numberOfSeparators \<and> 0 \<le> j \<and> j < numberOfSeparators") auto
  then show ?thesis
    by (auto simp add: spec_aliveCells_def)
qed

lemma grid_of_alive:
  assumes "wf_grid g" "set (spec_aliveCells g) = set cells"
  shows "g = grid_of cells"
proof (rule grid_ext [OF assms(1) wf_grid_of])
  fix a b :: int
  assume r: "0 \<le> a" "a < numberOfSeparators" "0 \<le> b" "b < numberOfSeparators"
  have "(a, b) \<in> set cells \<longleftrightarrow> grid_at g a b = Some True"
    using assms(2) set_spec_aliveCells [OF assms(1)] by auto
  then show "grid_at g a b = grid_at (grid_of cells) a b"
    using r grid_at_in [OF assms(1) r] by (auto simp add: grid_at_grid_of)
qed

lemma alive_grid_of:
  "set (spec_aliveCells (grid_of cells)) =
     {(i, j). 0 \<le> i \<and> i < numberOfSeparators \<and> 0 \<le> j \<and> j < numberOfSeparators \<and> (i, j) \<in> set cells}"
  by (auto simp add: set_spec_aliveCells [OF wf_grid_of] grid_at_grid_of)

lemma bottom_line_next:
  assumes "0 \<le> a" "a < numberOfSeparators" "0 \<le> b" "b < numberOfSeparators"
  shows "next_cell (grid_of [(0, 0), (0, 1), (0, 2)]) a b = ((a, b) \<in> set [(0, 1), (1, 1)])"
proof -
  have ca: "a = 0 \<or> a = 1 \<or> 1 < a" using assms by arith
  have cb: "b = 0 \<or> b = 1 \<or> b = 2 \<or> b = 3 \<or> 3 < b" using assms by arith
  have n: "3 < numberOfSeparators" by (simp add: numberOfSeparators_def)
  show ?thesis
    unfolding next_cell_grid_of [OF assms]
    using ca cb assms n
    by (elim disjE) (simp_all add: alive1_grid_of spec_rule_def)
qed

lemma bottom_pair_next:
  assumes "0 \<le> a" "a < numberOfSeparators" "0 \<le> b" "b < numberOfSeparators"
  shows "next_cell (grid_of [(0, 1), (1, 1)]) a b = ((a, b) \<in> set [])"
proof -
  have ca: "a = 0 \<or> a = 1 \<or> a = 2 \<or> 2 < a" using assms by arith
  have cb: "b = 0 \<or> b = 1 \<or> b = 2 \<or> 2 < b" using assms by arith
  have n: "3 < numberOfSeparators" by (simp add: numberOfSeparators_def)
  show ?thesis
    unfolding next_cell_grid_of [OF assms]
    using ca cb assms n
    by (elim disjE) (simp_all add: alive1_grid_of spec_rule_def)
qed

section \<open>The rebuild of the render list\<close>

lemma rebuild_j_eq:
  assumes "wf_grid g" "0 \<le> i" "i < numberOfSeparators"
  shows "0 \<le> j \<Longrightarrow>
         rebuild_j g i j sq =
           Inr (sq\<lparr>translations_vec := translations_vec sq @
                  map (cell_offset i) (filter (\<lambda>j'. g ! nat i ! nat j') [j .. numberOfSeparators - 1])\<rparr>)"
proof (induction "nat (numberOfSeparators - j)" arbitrary: j sq)
  case 0
  then have "\<not> j < numberOfSeparators" by simp
  then show ?case
    by (subst rebuild_j.simps) simp
next
  case (Suc n)
  then have jlt: "j < numberOfSeparators" by simp
  then have up: "[j .. numberOfSeparators - 1] = j # [j + 1 .. numberOfSeparators - 1]"
    by (simp add: upto_rec1)
  have rd: "grid_at g i j = Some (g ! nat i ! nat j)"
    using assms Suc.prems jlt by (simp add: grid_at_in)
  from Suc.hyps(2) have n: "n = nat (numberOfSeparators - (j + 1))" by simp
  have j1: "0 \<le> j + 1" using Suc.prems by simp
  show ?case
    using jlt
    by (subst rebuild_j.simps)
       (simp add: rd up Suc.hyps(1) [OF n j1] addTranslation_def cell_offset_def)
qed

lemma rebuild_i_eq:
  assumes "wf_grid g"
  shows "0 \<le> i \<Longrightarrow>
         rebuild_i g i sq =
           Inr (sq\<lparr>translations_vec := translations_vec sq @
                  concat (map (\<lambda>i'. map (cell_offset i')
                                  (filter (\<lambda>j'. g ! nat i' ! nat j') [0 .. numberOfSeparators - 1]))
                              [i .. numberOfSeparators - 1])\<rparr>)"
proof (induction "nat (numberOfSeparators - i)" arbitrary: i sq)
  case 0
  then have "\<not> i < numberOfSeparators" by simp
  then show ?case
    by (subst rebuild_i.simps) simp
next
  case (Suc n)
  then have ilt: "i < numberOfSeparators" by simp
  then have up: "[i .. numberOfSeparators - 1] = i # [i + 1 .. numberOfSeparators - 1]"
    by (simp add: upto_rec1)
  from Suc.hyps(2) have n: "n = nat (numberOfSeparators - (i + 1))" by simp
  have i1: "0 \<le> i + 1" using Suc.prems by simp
  show ?case
    using ilt
    by (subst rebuild_i.simps)
       (simp add: rebuild_j_eq [OF assms Suc.prems ilt] up Suc.hyps(1) [OF n i1])
qed

lemma map_filter_product:
  "map (\<lambda>(i, j). f i j) (filter (\<lambda>(i, j). P i j) (List.product xs ys)) =
     concat (map (\<lambda>i. map (f i) (filter (P i) ys)) xs)"
  by (induction xs) (simp_all add: filter_map comp_def)

lemma rebuild_eq:
  assumes "wf_grid g"
  shows "rebuild g sq =
           Inr (sq\<lparr>translations_vec := map (\<lambda>(i, j). cell_offset i j) (spec_aliveCells g)\<rparr>)"
  unfolding rebuild_def spec_aliveCells_def map_filter_product
  by (simp add: rebuild_i_eq [OF assms] clearTranslations_def)

lemma sorted_product:
  "sorted_wrt (<) xs \<Longrightarrow> sorted_wrt (<) ys \<Longrightarrow> sorted_wrt row_major_less (List.product xs ys)"
  by (induction xs)
     (auto simp add: sorted_wrt_append sorted_wrt_map row_major_less_def)

lemma sorted_aliveCells: "sorted_wrt row_major_less (spec_aliveCells g)"
  unfolding spec_aliveCells_def
  by (intro sorted_wrt_filter sorted_product) simp_all

lemma distinct_aliveCells: "distinct (spec_aliveCells g)"
  unfolding spec_aliveCells_def
  by (intro distinct_filter distinct_product) simp_all

lemma cell_offset_spec: "cell_offset i j = spec_cellToOffset i j"
  by (simp add: cell_offset_def spec_cellToOffset_def viewPortLeft_def viewPortBottom_def
        gridSquareSize_def viewPortSize_def)

lemma cell_offset_v1_eq: "cell_offset_v1 i j = cell_offset i j"
  by (simp add: cell_offset_v1_def cell_offset_def viewPortLeft_def viewPortBottom_def
        gridSquareSize_def viewPortSize_def)

section \<open>Rounding to double\<close>

lemma round_half_even_near:
  assumes "\<bar>r - of_int m\<bar> < 1 / 2"
  shows "round_half_even r = m"
proof (cases "of_int m \<le> r")
  case True
  with assms have "\<lfloor>r\<rfloor> = m" unfolding floor_eq_iff by linarith
  with assms True show ?thesis by (simp add: round_half_even_def Let_def)
next
  case False
  with assms have f: "\<lfloor>r\<rfloor> = m - 1" unfolding floor_eq_iff by simp
  from assms False have "1 / 2 < r - of_int (m - 1)" by simp
  with f show ?thesis by (simp add: round_half_even_def Let_def)
qed

lemma round_half_even_error: "\<bar>of_int (round_half_even r) - r\<bar> \<le> 1 / 2"
proof -
  have "of_int \<lfloor>r\<rfloor> \<le> r" "r < of_int \<lfloor>r\<rfloor> + 1" by linarith+
  then show ?thesis
    unfolding round_half_even_def Let_def by (simp split: if_splits)
qed

lemma fold_last_sat:
  fixes P :: "int \<Rightarrow> bool"
  assumes "a \<le> e" "P e" "\<And>k. e < k \<Longrightarrow> \<not> P k"
  shows "e \<le> b \<Longrightarrow> fold (\<lambda>k acc. if P k then k else acc) [a .. b] d = e"
proof (induction "nat (b - e)" arbitrary: b)
  case 0
  then have "b = e" by simp
  with assms show ?case by (simp add: upto_rec2)
next
  case (Suc n)
  then have "e < b" "a \<le> b" using assms(1) by simp_all
  moreover from Suc have "n = nat (b - 1 - e)" "e \<le> b - 1" by simp_all
  ultimately show ?case
    using Suc.hyps(1) [of "b - 1"] assms(3) [of b] by (simp add: upto_rec2)
qed

lemma fold_none_sat:
  fixes P :: "int \<Rightarrow> bool"
  assumes "\<And>k. a \<le> k \<Longrightarrow> \<not> P k"
  shows "fold (\<lambda>k acc. if P k then k else acc) [a .. b] d = d"
proof (induction "nat (b + 1 - a)" arbitrary: b)
  case 0
  then show ?case by simp
next
  case (Suc n)
  then have "a \<le> b" by simp
  moreover from Suc have "n = nat (b - 1 + 1 - a)" by simp
  ultimately show ?case
    using Suc.hyps(1) [of "b - 1"] assms [of b] by (simp add: upto_rec2)
qed

lemma double_exponent_eq:
  assumes "- 1022 \<le> e" "e \<le> 1023" "2 powi e \<le> \<bar>v\<bar>" "\<bar>v\<bar> < 2 powi (e + 1)"
  shows "double_exponent v = e"
proof (cases "e = - 1022")
  case True
  have "\<not> 2 powi k \<le> \<bar>v\<bar>" if "- 1021 \<le> k" for k
  proof -
    have "(2::real) powi (e + 1) \<le> 2 powi k"
      using that True by (intro power_int_increasing) simp_all
    with assms(4) show ?thesis by simp
  qed
  then have "fold (\<lambda>k acc. if 2 powi k \<le> \<bar>v\<bar> then k else acc) [- 1021 .. 1023] (- 1022) = - 1022"
    by (rule fold_none_sat)
  then show ?thesis
    unfolding double_exponent_def using True by (simp only:)
next
  case False
  have "\<not> 2 powi k \<le> \<bar>v\<bar>" if "e < k" for k
  proof -
    have "(2::real) powi (e + 1) \<le> 2 powi k"
      using that by (intro power_int_increasing) simp_all
    with assms(4) show ?thesis by simp
  qed
  then have "fold (\<lambda>k acc. if 2 powi k \<le> \<bar>v\<bar> then k else acc) [- 1021 .. 1023] (- 1022) = e"
    using False assms by (intro fold_last_sat) simp_all
  then show ?thesis
    unfolding double_exponent_def by (simp only:)
qed

lemma double_exponent_small:
  assumes "\<bar>v\<bar> < 2 powi (- 1022)"
  shows "double_exponent v = - 1022"
proof -
  have "\<not> 2 powi k \<le> \<bar>v\<bar>" if "- 1021 \<le> k" for k
  proof -
    have "(2::real) powi (- 1022) \<le> 2 powi k"
      using that by (intro power_int_increasing) simp_all
    with assms show ?thesis by simp
  qed
  then have "fold (\<lambda>k acc. if 2 powi k \<le> \<bar>v\<bar> then k else acc) [- 1021 .. 1023] (- 1022) = - 1022"
    by (rule fold_none_sat)
  then show ?thesis
    unfolding double_exponent_def by (simp only:)
qed

lemma binade_exists:
  fixes x :: real
  shows "a < b \<Longrightarrow> 2 powi a \<le> x \<Longrightarrow> x < 2 powi b \<Longrightarrow>
         \<exists>e. a \<le> e \<and> e < b \<and> 2 powi e \<le> x \<and> x < 2 powi (e + 1)"
proof (induction "nat (b - a)" arbitrary: b)
  case 0
  then show ?case by simp
next
  case (Suc n)
  show ?case
  proof (cases "x < 2 powi (b - 1)")
    case True
    have "a < b - 1"
    proof (rule ccontr)
      assume "\<not> a < b - 1"
      with Suc.prems(1) have "a = b - 1" by simp
      with True Suc.prems(2) show False by simp
    qed
    moreover from Suc.hyps(2) have "n = nat (b - 1 - a)" by simp
    ultimately obtain e where "a \<le> e" "e < b - 1" "2 powi e \<le> x" "x < 2 powi (e + 1)"
      using Suc.hyps(1) [of "b - 1"] Suc.prems(2) True by blast
    then show ?thesis by (intro exI [of _ e]) simp
  next
    case False
    with Suc.prems show ?thesis by (intro exI [of _ "b - 1"]) simp
  qed
qed

lemma double_round_zero: "double_round 0 = 0"
  by (simp add: double_round_def round_half_even_def)

lemma double_round_eqI:
  assumes e: "double_exponent v = e"
    and y: "y = of_int m * 2 powi (e - 52)"
    and near: "\<bar>v - y\<bar> < 2 powi (e - 53)"
  shows "double_round v = y"
proof -
  let ?u = "(2::real) powi (e - 52)"
  have u: "0 < ?u" by simp
  have h: "(2::real) powi (e - 53) = ?u / 2"
    using power_int_add [of "2::real" "e - 53" 1] by simp
  have "v / ?u - of_int m = (v - y) / ?u"
    using u by (simp add: y diff_divide_distrib)
  then have "\<bar>v / ?u - of_int m\<bar> = \<bar>v - y\<bar> / ?u"
    by (simp only: abs_divide abs_of_pos [OF u])
  also have "\<dots> < 1 / 2"
    using near u unfolding h by (simp add: field_simps)
  finally have "round_half_even (v / ?u) = m"
    by (rule round_half_even_near)
  then show ?thesis
    by (simp add: double_round_def Let_def e y)
qed

lemma double_round_error:
  assumes "double_exponent v = e"
  shows "\<bar>double_round v - v\<bar> \<le> 2 powi (e - 53)"
proof -
  let ?u = "(2::real) powi (e - 52)"
  have u: "0 < ?u" by simp
  have h: "(2::real) powi (e - 53) = ?u / 2"
    using power_int_add [of "2::real" "e - 53" 1] by simp
  have "double_round v - v = (of_int (round_half_even (v / ?u)) - v / ?u) * ?u"
    using u by (simp add: double_round_def Let_def assms left_diff_distrib)
  then have "\<bar>double_round v - v\<bar> = \<bar>of_int (round_half_even (v / ?u)) - v / ?u\<bar> * ?u"
    by (simp only: abs_mult abs_of_pos [OF u])
  also have "\<dots> \<le> (1 / 2) * ?u"
    using u round_half_even_error [of "v / ?u"] by (intro mult_right_mono) simp_all
  finally show ?thesis unfolding h by simp
qed

lemma double_round_rel_error:
  assumes "2 powi (- 1022) \<le> \<bar>v\<bar>" "\<bar>v\<bar> < 2 powi 1024"
  shows "\<bar>double_round v - v\<bar> \<le> \<bar>v\<bar> * 2 powi (- 53)"
proof -
  from binade_exists [OF _ assms]
  obtain e where e: "- 1022 \<le> e" "e < 1024" "2 powi e \<le> \<bar>v\<bar>" "\<bar>v\<bar> < 2 powi (e + 1)"
    by auto
  then have "double_exponent v = e"
    by (intro double_exponent_eq) simp_all
  then have "\<bar>double_round v - v\<bar> \<le> 2 powi (e - 53)"
    by (rule double_round_error)
  also have "(2::real) powi (e - 53) = 2 powi e * 2 powi (- 53)"
    using power_int_add [of "2::real" e "- 53"] by simp
  also have "\<dots> \<le> \<bar>v\<bar> * 2 powi (- 53)"
    using e(3) by (intro mult_right_mono) simp_all
  finally show ?thesis .
qed

lemma double_round_exact:
  assumes v: "v = of_int m * 2 powi k"
    and m: "\<bar>m\<bar> < 2 ^ 53" and k: "- 1074 \<le> k" "k \<le> 970"
  shows "double_round v = v"
proof (cases "m = 0")
  case True
  with v show ?thesis by (simp add: double_round_zero)
next
  case False
  have av: "\<bar>v\<bar> = of_int \<bar>m\<bar> * 2 powi k"
    by (simp add: v abs_mult)
  have m1: "(1::real) \<le> of_int \<bar>m\<bar>" using False by linarith
  have m2: "of_int \<bar>m\<bar> < (2::real) powi 53"
  proof -
    have "real_of_int \<bar>m\<bar> < real_of_int (2 ^ 53)" using m by linarith
    then show ?thesis by simp
  qed
  have up: "\<bar>v\<bar> < 2 powi (53 + k)"
  proof -
    have "\<bar>v\<bar> < 2 powi 53 * 2 powi k"
      unfolding av using m2 by (intro mult_strict_right_mono) simp_all
    also have "\<dots> = 2 powi (53 + k)"
      using power_int_add [of "2::real" 53 k] by simp
    finally show ?thesis .
  qed
  obtain e where e: "double_exponent v = e" "- 1074 \<le> e - 52" "e - 52 \<le> k"
  proof (cases "\<bar>v\<bar> < 2 powi (- 1022)")
    case True
    then have "double_exponent v = - 1022" by (rule double_exponent_small)
    with k that show ?thesis by simp
  next
    case False
    then have lo: "2 powi (- 1022) \<le> \<bar>v\<bar>" by simp
    have "(2::real) powi (53 + k) \<le> 2 powi 1024"
      using k by (intro power_int_increasing) simp_all
    with up have hi: "\<bar>v\<bar> < 2 powi 1024" by simp
    from binade_exists [OF _ lo hi]
    obtain e where e: "- 1022 \<le> e" "e < 1024" "2 powi e \<le> \<bar>v\<bar>" "\<bar>v\<bar> < 2 powi (e + 1)"
      by auto
    then have d: "double_exponent v = e"
      by (intro double_exponent_eq) simp_all
    from e(3) up have "(2::real) powi e < 2 powi (53 + k)" by simp
    then have "e < 53 + k"
      by (metis linorder_not_less one_le_numeral power_int_increasing)
    with d e(1) that show ?thesis by simp
  qed
  let ?j = "k - (e - 52)"
  have j: "0 \<le> ?j" using e(3) by simp
  have "(2::real) powi k = 2 powi ?j * 2 powi (e - 52)"
    using power_int_add [of "2::real" ?j "e - 52"] by simp
  also have "(2::real) powi ?j = of_int (2 ^ nat ?j)"
    using j by (simp add: power_int_def)
  finally have vy: "v = of_int (m * 2 ^ nat ?j) * 2 powi (e - 52)"
    by (simp add: v)
  have "\<bar>v - v\<bar> < 2 powi (e - 53)" by simp
  with e(1) vy show ?thesis by (rule double_round_eqI)
qed

text \<open>
  Values of the rounding that are known from the format: the double nearest to one tenth,
  and two ties, which go to the even significand.
\<close>

lemma round_half_even_tie:
  "round_half_even (of_int m + 1 / 2) = (if even m then m else m + 1)"
proof -
  have "\<lfloor>real_of_int m + 1 / 2\<rfloor> = m" unfolding floor_eq_iff by simp
  then show ?thesis by (simp add: round_half_even_def Let_def)
qed

lemma double_round_one_tenth: "double_round (1 / 10) = 3602879701896397 / 2 ^ 55"
proof -
  have e: "double_exponent (1 / 10) = - 4"
    by (rule double_exponent_eq) (simp_all add: power_int_minus)
  show ?thesis
    using e
  proof (rule double_round_eqI)
    show "(3602879701896397 / 2 ^ 55 :: real) = of_int 7205759403792794 * 2 powi (- 4 - 52)"
      by (simp add: power_int_minus)
    show "\<bar>1 / 10 - 3602879701896397 / 2 ^ 55 :: real\<bar> < 2 powi (- 4 - 53)"
      by (simp add: power_int_minus)
  qed
qed

lemma double_round_tieI:
  assumes "double_exponent v = e"
    and "v / 2 powi (e - 52) = of_int m + 1 / 2"
    and "y = of_int (if even m then m else m + 1) * 2 powi (e - 52)"
  shows "double_round v = y"
  unfolding double_round_def Let_def assms(1) assms(2) round_half_even_tie assms(3) ..

lemma double_round_tie_down: "double_round (1 + 1 / 2 ^ 53) = 1"
proof (rule double_round_tieI)
  show "double_exponent (1 + 1 / 2 ^ 53) = 0"
    by (rule double_exponent_eq) simp_all
  show "(1 + 1 / 2 ^ 53) / 2 powi (0 - 52) = real_of_int (2 ^ 52) + 1 / 2"
    by (simp add: power_int_minus field_simps)
  show "(1::real) = of_int (if even (2 ^ 52 :: int) then 2 ^ 52 else 2 ^ 52 + 1) * 2 powi (0 - 52)"
    by (simp add: power_int_minus)
qed

lemma double_round_tie_up: "double_round (1 + 3 / 2 ^ 53) = 1 + 1 / 2 ^ 51"
proof (rule double_round_tieI)
  show "double_exponent (1 + 3 / 2 ^ 53) = 0"
    by (rule double_exponent_eq) simp_all
  show "(1 + 3 / 2 ^ 53) / 2 powi (0 - 52) = real_of_int (2 ^ 52 + 1) + 1 / 2"
    by (simp add: power_int_minus field_simps)
  show "(1 + 1 / 2 ^ 51 :: real) =
          of_int (if even (2 ^ 52 + 1 :: int) then 2 ^ 52 + 1 else 2 ^ 52 + 1 + 1) * 2 powi (0 - 52)"
    by (simp add: power_int_minus field_simps)
qed

section \<open>The cast and the toggle\<close>

lemma c_int_cast_eqI:
  assumes "if 0 \<le> v then of_int t \<le> v \<and> v < of_int t + 1 else of_int t - 1 < v \<and> v \<le> of_int t"
    and "- 2147483648 \<le> t" "t \<le> 2147483647"
  shows "c_int_cast v = Some t"
proof (cases "0 \<le> v")
  case True
  with assms(1) have "\<lfloor>v\<rfloor> = t" by (simp add: floor_eq_iff)
  with True assms(2,3) show ?thesis by (simp add: c_int_cast_def)
next
  case False
  with assms(1) have "\<lceil>v\<rceil> = t" by (simp add: ceiling_eq_iff)
  with False assms(2,3) show ?thesis by (simp add: c_int_cast_def)
qed

lemma c_int_cast_trunc:
  "c_int_cast v = Some t \<Longrightarrow> t = trunc_toward_zero v"
  by (auto simp add: c_int_cast_def trunc_toward_zero_def ceiling_def Let_def split: if_splits)

lemma toggle_cell_in:
  assumes "wf_grid (mapGrid st)" "0 \<le> row" "row < numberOfSeparators" "0 \<le> col" "col < numberOfSeparators"
  shows "toggle_cell st row col =
           Inr (st\<lparr>mapGrid := (mapGrid st)[nat row := (mapGrid st ! nat row)[nat col := \<not> mapGrid st ! nat row ! nat col]]\<rparr>)"
  using assms by (simp add: toggle_cell_def grid_at_in grid_set_in)

lemma toggle_cell_out:
  assumes "wf_grid (mapGrid st)" "row < 0 \<or> numberOfSeparators \<le> row \<or> col < 0 \<or> numberOfSeparators \<le> col"
  shows "toggle_cell st row col = Inl OutOfBounds"
  using assms by (simp add: toggle_cell_def grid_at_out)

lemma toggle_cell_props:
  assumes "wf_grid (mapGrid st)" "0 \<le> row" "row < numberOfSeparators" "0 \<le> col" "col < numberOfSeparators"
  shows "\<exists>st'. toggle_cell st row col = Inr st' \<and> wf_grid (mapGrid st') \<and>
           simulationRunning st' = simulationRunning st \<and>
           (\<forall>a b. grid_at (mapGrid st') a b =
              (if a = row \<and> b = col then Some (\<not> mapGrid st ! nat row ! nat col)
               else grid_at (mapGrid st) a b)) \<and>
           toggle_cell st' row col = Inr st"
proof -
  let ?g = "mapGrid st"
  let ?g' = "?g[nat row := (?g ! nat row)[nat col := \<not> ?g ! nat row ! nat col]]"
  let ?st' = "st\<lparr>mapGrid := ?g'\<rparr>"
  have t: "toggle_cell st row col = Inr ?st'"
    using assms by (rule toggle_cell_in)
  have wf': "wf_grid (mapGrid ?st')"
    using assms(1) by (simp add: wf_grid_update)
  have at': "grid_at (mapGrid ?st') a b =
              (if a = row \<and> b = col then Some (\<not> ?g ! nat row ! nat col) else grid_at ?g a b)" for a b
    using grid_at_update [OF assms] by simp
  have li: "nat row < length ?g" and lj: "nat col < length (?g ! nat row)"
    using assms wf_grid_length [OF assms(1)] wf_grid_row [OF assms(1), of row] by linarith+
  have again: "toggle_cell ?st' row col = Inr st"
    unfolding toggle_cell_in [OF wf' assms(2-5)]
    using li lj by simp
  from t wf' at' again show ?thesis by auto
qed

lemma double_round_close:
  assumes "1 / 2048 \<le> \<bar>v\<bar>" "\<bar>v\<bar> \<le> 2048"
  shows "\<bar>double_round v - v\<bar> \<le> \<bar>v\<bar> / 1000000"
proof -
  have "(2::real) powi (- 1022) \<le> 2 powi (- 11)"
    by (intro power_int_increasing) simp_all
  also have "\<dots> = 1 / 2048" by (simp add: power_int_minus)
  finally have lo: "2 powi (- 1022) \<le> \<bar>v\<bar>" using assms(1) by simp
  have "(2048::real) = 2 powi 11" by simp
  also have "\<dots> < 2 powi 1024"
    by (intro power_int_strict_increasing) simp_all
  finally have hi: "\<bar>v\<bar> < 2 powi 1024" using assms(2) by simp
  have eps: "(2::real) powi (- 53) \<le> 1 / 1000000"
    by (simp add: power_int_minus)
  have "\<bar>double_round v - v\<bar> \<le> \<bar>v\<bar> * 2 powi (- 53)"
    using lo hi by (rule double_round_rel_error)
  also have "\<dots> \<le> \<bar>v\<bar> * (1 / 1000000)"
    using eps by (intro mult_left_mono) simp_all
  finally show ?thesis by simp
qed

lemma double_round_int:
  assumes "\<bar>m\<bar> < 2 ^ 53"
  shows "double_round (of_int m) = of_int m"
  using double_round_exact [of "of_int m" m 0] assms by simp

lemma double_round_pos:
  assumes "1 / 2048 \<le> v" "v \<le> 2048"
  shows "v - v / 1000000 \<le> double_round v" "double_round v \<le> v + v / 1000000"
proof -
  have "\<bar>double_round v - v\<bar> \<le> \<bar>v\<bar> / 1000000"
    using assms by (intro double_round_close) simp_all
  moreover have "\<bar>v\<bar> = v" using assms by simp
  ultimately have a: "\<bar>double_round v - v\<bar> \<le> v / 1000000" by simp
  from a show "v - v / 1000000 \<le> double_round v" by linarith
  from a show "double_round v \<le> v + v / 1000000" by linarith
qed

lemma double_round_neg:
  assumes "v \<le> - (1 / 2048)" "- 2048 \<le> v"
  shows "v + v / 1000000 \<le> double_round v" "double_round v \<le> v - v / 1000000"
proof -
  have "\<bar>double_round v - v\<bar> \<le> \<bar>v\<bar> / 1000000"
    using assms by (intro double_round_close) simp_all
  moreover have "\<bar>v\<bar> = - v" using assms by simp
  ultimately have a: "\<bar>double_round v - v\<bar> \<le> - v / 1000000" by simp
  from a show "v + v / 1000000 \<le> double_round v" by linarith
  from a show "double_round v \<le> v - v / 1000000" by linarith
qed

lemma cursor_x_interval:
  assumes "0 \<le> c" "c \<le> 79"
    and "real_of_int c * 15 + 1 \<le> xpos" "xpos \<le> real_of_int c * 15 + 14"
  shows "cursor_x xpos = Some c"
proof -
  define v where "v = xpos / 1200"
  define q where "q = double_round v"
  define p where "p = double_round (q * 80)"
  have c: "0 \<le> real_of_int c" "real_of_int c \<le> 79" using assms by simp_all
  have v: "real_of_int c / 80 + 1 / 1200 \<le> v" "v \<le> real_of_int c / 80 + 14 / 1200"
    using assms(3,4) by (simp_all add: v_def)
  with c have "1 / 2048 \<le> v" "v \<le> 2048" by linarith+
  from double_round_pos [OF this]
  have q: "v - v / 1000000 \<le> q" "q \<le> v + v / 1000000"
    by (simp_all add: q_def)
  with v c have "1 / 2048 \<le> q * 80" "q * 80 \<le> 2048" by linarith+
  from double_round_pos [OF this]
  have p: "q * 80 - q * 80 / 1000000 \<le> p" "p \<le> q * 80 + q * 80 / 1000000"
    by (simp_all add: p_def)
  have lo: "real_of_int c \<le> p" and hi: "p < real_of_int c + 1" and pos: "0 \<le> p"
    using p q v c by linarith+
  have "c_int_cast p = Some c"
    using lo hi pos assms(1,2) by (intro c_int_cast_eqI) simp_all
  then show ?thesis
    by (simp add: cursor_x_def windowWidth_def numberOfSeparators_def p_def q_def v_def)
qed

lemma cursor_y_interval:
  assumes "0 \<le> r" "r \<le> 79"
    and "real_of_int r * 15 + 1 \<le> 1200 - ypos" "1200 - ypos \<le> real_of_int r * 15 + 14"
  shows "cursor_y ypos = Some r"
proof -
  define a where "a = 1200 - ypos"
  define d where "d = double_round a"
  define v where "v = d / 1200"
  define q where "q = double_round v"
  define p where "p = double_round (q * 80)"
  have r: "0 \<le> real_of_int r" "real_of_int r \<le> 79" using assms by simp_all
  have a: "real_of_int r * 15 + 1 \<le> a" "a \<le> real_of_int r * 15 + 14"
    using assms(3,4) by (simp_all add: a_def)
  have "1 / 2048 \<le> a" using a r by linarith
  moreover have "a \<le> 2048" using a r by linarith
  ultimately have d: "a - a / 1000000 \<le> d" "d \<le> a + a / 1000000"
    using double_round_pos [of a] by (simp_all add: d_def)
  have v: "d = v * 1200" by (simp add: v_def)
  have "1 / 2048 \<le> v" using a r d unfolding v by linarith
  moreover have "v \<le> 2048" using a r d unfolding v by linarith
  ultimately have q: "v - v / 1000000 \<le> q" "q \<le> v + v / 1000000"
    using double_round_pos [of v] by (simp_all add: q_def)
  have "1 / 2048 \<le> q * 80" using a r d q unfolding v by linarith
  moreover have "q * 80 \<le> 2048" using a r d q unfolding v by linarith
  ultimately have p: "q * 80 - q * 80 / 1000000 \<le> p" "p \<le> q * 80 + q * 80 / 1000000"
    using double_round_pos [of "q * 80"] by (simp_all add: p_def)
  have lo: "real_of_int r \<le> p" using p q d a r unfolding v by linarith
  have hi: "p < real_of_int r + 1" using p q d a r unfolding v by linarith
  have pos: "0 \<le> p" using lo r by linarith
  have "c_int_cast p = Some r"
    using lo hi pos assms(1,2) by (intro c_int_cast_eqI) simp_all
  then show ?thesis
    by (simp add: cursor_y_def windowHeight_def numberOfSeparators_def p_def q_def v_def d_def a_def)
qed

lemma cursor_centre:
  assumes "0 \<le> row" "row < numberOfSeparators" "0 \<le> col" "col < numberOfSeparators"
  shows "cursor_x ((real_of_int col + 1 / 2) * 15) = Some col"
    and "cursor_y (1200 - (real_of_int row + 1 / 2) * 15) = Some row"
proof -
  have b: "col \<le> 79" "row \<le> 79" using assms by (simp_all add: numberOfSeparators_def)
  show "cursor_x ((real_of_int col + 1 / 2) * 15) = Some col"
    using assms(3) b(1) by (rule cursor_x_interval) (simp_all add: algebra_simps)
  show "cursor_y (1200 - (real_of_int row + 1 / 2) * 15) = Some row"
    using assms(1) b(2) by (rule cursor_y_interval) (simp_all add: algebra_simps)
qed

lemma double_round_dyadic:
  assumes "\<bar>m\<bar> < 2 ^ 53" "n \<le> 1074"
  shows "double_round (of_int m / 2 ^ n) = of_int m / 2 ^ n"
proof -
  have "(2::real) powi (- int n) = 1 / 2 ^ n"
    by (simp add: power_int_minus divide_inverse)
  then have "of_int m / 2 ^ n = of_int m * (2::real) powi (- int n)" by simp
  then show ?thesis
    using assms by (intro double_round_exact [where m = m and k = "- int n"]) simp_all
qed

lemma c_int_cast_int:
  assumes "- 2147483648 \<le> t" "t \<le> 2147483647"
  shows "c_int_cast (of_int t) = Some t"
  using assms by (intro c_int_cast_eqI) simp_all

lemma cursor_x_600: "cursor_x 600 = Some 40"
proof -
  have a: "double_round (1 / 2) = 1 / 2"
    using double_round_dyadic [of 1 1] by simp
  have b: "double_round 40 = 40"
    using double_round_int [of 40] by simp
  show ?thesis
    using c_int_cast_int [of 40]
    by (simp add: cursor_x_def windowWidth_def numberOfSeparators_def a b)
qed

lemma cursor_x_300: "cursor_x 300 = Some 20"
proof -
  have a: "double_round (1 / 4) = 1 / 4"
    using double_round_dyadic [of 1 2] by simp
  have b: "double_round 20 = 20"
    using double_round_int [of 20] by simp
  show ?thesis
    using c_int_cast_int [of 20]
    by (simp add: cursor_x_def windowWidth_def numberOfSeparators_def a b)
qed

lemma cursor_y_0: "cursor_y 0 = Some 80"
proof -
  have a: "double_round 1200 = 1200"
    using double_round_int [of 1200] by simp
  have b: "double_round 1 = 1"
    using double_round_int [of 1] by simp
  have c: "double_round 80 = 80"
    using double_round_int [of 80] by simp
  show ?thesis
    using c_int_cast_int [of 80]
    by (simp add: cursor_y_def windowHeight_def numberOfSeparators_def a b c)
qed

lemma cursor_y_300: "cursor_y 300 = Some 60"
proof -
  have a: "double_round 900 = 900"
    using double_round_int [of 900] by simp
  have b: "double_round (3 / 4) = 3 / 4"
    using double_round_dyadic [of 3 2] by simp
  have c: "double_round 60 = 60"
    using double_round_int [of 60] by simp
  show ?thesis
    using c_int_cast_int [of 60]
    by (simp add: cursor_y_def windowHeight_def numberOfSeparators_def a b c)
qed

lemma cursor_y_1201: "cursor_y 1201 = Some 0"
proof -
  define q where "q = double_round (- (1 / 1200))"
  define p where "p = double_round (q * 80)"
  have a: "double_round (- 1) = - 1"
    using double_round_int [of "- 1"] by simp
  have q: "- (1000001 / 1200000000) \<le> q" "q \<le> - (999999 / 1200000000)"
    using double_round_neg [of "- (1 / 1200)"] by (simp_all add: q_def)
  have "q * 80 \<le> - (1 / 2048)" using q by linarith
  moreover have "- 2048 \<le> q * 80" using q by linarith
  ultimately have p: "q * 80 + q * 80 / 1000000 \<le> p" "p \<le> q * 80 - q * 80 / 1000000"
    using double_round_neg [of "q * 80"] by (simp_all add: p_def)
  have "\<not> 0 \<le> p" using p q by linarith
  moreover have "- 1 < p" using p q by linarith
  ultimately have "c_int_cast p = Some 0"
    by (intro c_int_cast_eqI) simp_all
  then show ?thesis
    by (simp add: cursor_y_def windowHeight_def numberOfSeparators_def a p_def q_def)
qed

lemma cursor_y_tiny: "cursor_y (1 / 2 ^ 50) = Some 80"
proof -
  let ?a = "1200 - 1 / 2 ^ 50 :: real"
  have e: "double_exponent ?a = 10"
    by (rule double_exponent_eq) simp_all
  have "double_round ?a = 1200"
    using e
  proof (rule double_round_eqI)
    show "(1200::real) = of_int (1200 * 2 ^ 42) * 2 powi (10 - 52)"
      by (simp add: power_int_minus)
    show "\<bar>?a - 1200\<bar> < 2 powi (10 - 53)"
      by (simp add: power_int_minus)
  qed
  moreover have "double_round 1 = 1"
    using double_round_int [of 1] by simp
  moreover have "double_round 80 = 80"
    using double_round_int [of 80] by simp
  ultimately show ?thesis
    using c_int_cast_int [of 80]
    by (simp add: cursor_y_def windowHeight_def numberOfSeparators_def)
qed

text \<open>
  The double just below 105, the left edge of column 7: the exact quotient lies in column 6,
  the product computed in doubles is a tie that rounds to 7.
\<close>

lemma cursor_x_below_105: "cursor_x (7388718138654719 / 2 ^ 46) = Some 7"
proof -
  let ?v = "7388718138654719 / 2 ^ 46 / 1200 :: real"
  have e: "double_exponent ?v = - 4"
    by (rule double_exponent_eq) (simp_all add: power_int_minus)
  have q: "double_round ?v = 3152519739159347 / 2 ^ 55"
    using e
  proof (rule double_round_eqI)
    show "(3152519739159347 / 2 ^ 55 :: real) = of_int 6305039478318694 * 2 powi (- 4 - 52)"
      by (simp add: power_int_minus)
    show "\<bar>?v - 3152519739159347 / 2 ^ 55\<bar> < 2 powi (- 4 - 53)"
      by (simp add: power_int_minus)
  qed
  let ?w = "3152519739159347 / 2 ^ 55 * 80 :: real"
  have p: "double_round ?w = 7"
  proof (rule double_round_tieI)
    show "double_exponent ?w = 2"
      by (rule double_exponent_eq) simp_all
    show "?w / 2 powi (2 - 52) = real_of_int (7 * 2 ^ 50 - 1) + 1 / 2"
      by (simp add: power_int_minus field_simps)
    show "(7::real) =
            of_int (if even (7 * 2 ^ 50 - 1 :: int) then 7 * 2 ^ 50 - 1 else 7 * 2 ^ 50 - 1 + 1)
              * 2 powi (2 - 52)"
      by (simp add: power_int_minus)
  qed
  show ?thesis
    unfolding cursor_x_def windowWidth_def numberOfSeparators_def of_int_numeral q p
    using c_int_cast_int [of 7] by simp
qed

lemma callback_paused_press:
  assumes "\<not> simulationRunning st" "cursor_x xpos = Some col" "cursor_y ypos = Some row"
  shows "mouse_button_callback st GLFW_MOUSE_BUTTON_LEFT GLFW_PRESS xpos ypos =
           (if col < 0 \<or> numberOfSeparators \<le> col \<or> row < 0 \<or> numberOfSeparators \<le> row
            then Inr st else toggle_cell st row col)"
  using assms by (simp add: mouse_button_callback_def)

lemma callback_out_of_range_noop:
  assumes "cursor_x xpos = Some col" "cursor_y ypos = Some row"
    and "col < 0 \<or> numberOfSeparators \<le> col \<or> row < 0 \<or> numberOfSeparators \<le> row"
  shows "mouse_button_callback st button action xpos ypos = Inr st"
  using assms by (simp add: mouse_button_callback_def)

lemma callback_v1_paused_press:
  assumes "\<not> simulationRunning st" "cursor_x xpos = Some col" "cursor_y ypos = Some row"
  shows "mouse_button_callback_v1 st GLFW_MOUSE_BUTTON_LEFT GLFW_PRESS xpos ypos =
           toggle_cell st row col"
  using assms
  by (simp add: mouse_button_callback_v1_def cursor_x_def cursor_y_def windowWidth_def
        windowHeight_def)

lemma wf_initial: "wf_grid (mapGrid initial_state)"
  by (simp add: initial_state_def wf_emptyGrid)

lemma paused_initial: "\<not> simulationRunning initial_state"
  by (simp add: initial_state_def)

lemma grid_at_emptyGrid:
  "grid_at emptyGrid a b =
     (if 0 \<le> a \<and> a < numberOfSeparators \<and> 0 \<le> b \<and> b < numberOfSeparators
      then Some False else None)"
proof (cases "0 \<le> a \<and> a < numberOfSeparators \<and> 0 \<le> b \<and> b < numberOfSeparators")
  case True
  then have "emptyGrid ! nat a ! nat b = False"
    by (simp add: emptyGrid_def)
  with True grid_at_in [OF wf_emptyGrid, of a b] show ?thesis by simp
next
  case False
  then have "a < 0 \<or> numberOfSeparators \<le> a \<or> b < 0 \<or> numberOfSeparators \<le> b" by auto
  from grid_at_out [OF wf_emptyGrid this] False show ?thesis by simp
qed

lemma toggle_initial:
  assumes "0 \<le> row" "row < numberOfSeparators" "0 \<le> col" "col < numberOfSeparators"
  shows "toggle_cell initial_state row col = Inr (initial_state\<lparr>mapGrid := grid_of [(row, col)]\<rparr>)"
proof -
  from toggle_cell_props [OF wf_initial assms]
  obtain st' where t: "toggle_cell initial_state row col = Inr st'" "wf_grid (mapGrid st')"
      "simulationRunning st' = simulationRunning initial_state"
      and at: "\<And>a b. grid_at (mapGrid st') a b =
              (if a = row \<and> b = col then Some (\<not> mapGrid initial_state ! nat row ! nat col)
               else grid_at (mapGrid initial_state) a b)"
    by auto
  have g0: "mapGrid initial_state = emptyGrid"
    by (simp add: initial_state_def)
  have e: "emptyGrid ! nat row ! nat col = False"
    using assms by (simp add: emptyGrid_def)
  have "mapGrid st' = grid_of [(row, col)]"
    using t(2) wf_grid_of
    by (rule grid_ext) (simp add: at g0 e grid_at_grid_of grid_at_emptyGrid)
  moreover have "st' = initial_state\<lparr>mapGrid := mapGrid st'\<rparr>"
    using t(1) wf_initial assms by (auto simp add: toggle_cell_in)
  ultimately show ?thesis using t(1) by simp
qed

lemma trunc_nonneg: "0 \<le> v \<Longrightarrow> trunc_toward_zero v = \<lfloor>v\<rfloor>"
  by (simp add: trunc_toward_zero_def)

section \<open>The simulation step\<close>

text \<open>
  Claim C1. For every grid and every cell \<open>(i, j)\<close> inside it, one simulation step succeeds
  and the cell's new state is the Life rule applied to its neighbour count: an alive cell
  with fewer than two or more than three neighbours is dead, a dead cell with exactly three
  is alive, any other cell keeps its state. The count \<open>n\<close> is the one the scan of the code
  returns; it is the number of alive cells among the eight offsets whose target lies inside
  the grid (no wrap-around), and it lies between 0 and 8.
\<close>

theorem step_applies_life_rule:
  assumes "wf_grid g" "0 \<le> i" "i < numberOfSeparators" "0 \<le> j" "j < numberOfSeparators"
  shows "\<exists>g' alive n.
           step g = Inr g' \<and> grid_at g i j = Some alive \<and>
           count_x g i j (- 1) 0 = Inr n \<and> n = spec_neighbours g i j \<and> 0 \<le> n \<and> n \<le> 8 \<and>
           grid_at g' i j =
             Some (if alive \<and> (n < 2 \<or> 3 < n) then False
                   else if \<not> alive \<and> n = 3 then True
                   else alive)"
proof -
  have "grid_at (spec_step g) i j = Some (next_cell g i j)"
    using assms(2-5) by (rule grid_at_spec_step)
  then show ?thesis
    using step_refines [OF assms(1)] grid_at_in [OF assms] count_x_neighbours [OF assms(1), of i j]
      spec_neighbours_bounds [of g i j]
    by (simp add: next_cell_def spec_rule_def)
qed

theorem step_applies_life_rule_witness:
  "wf_grid (grid_of [(1, 0), (1, 1), (1, 2)]) \<and>
   (0::int) \<le> 0 \<and> 0 < numberOfSeparators \<and> (0::int) \<le> 1 \<and> 1 < numberOfSeparators \<and>
   (\<exists>g'. step (grid_of [(1, 0), (1, 1), (1, 2)]) = Inr g' \<and>
         grid_at (grid_of [(1, 0), (1, 1), (1, 2)]) 0 1 = Some False \<and>
         count_x (grid_of [(1, 0), (1, 1), (1, 2)]) 0 1 (- 1) 0 = Inr 3 \<and>
         grid_at g' 0 1 = Some True)"
proof -
  let ?G = "grid_of [(1, 0), (1, 1), (1, 2)]"
  have r: "(0::int) \<le> 0" "0 < numberOfSeparators" "(0::int) \<le> 1" "1 < numberOfSeparators"
    by (simp_all add: numberOfSeparators_def)
  have a: "grid_at ?G 0 1 = Some False"
    using r by (simp add: grid_at_grid_of)
  have n: "spec_neighbours ?G 0 1 = 3"
    by (simp add: neighbours_sum [OF wf_grid_of] alive1_grid_of numberOfSeparators_def)
  from step_applies_life_rule [OF wf_grid_of r, of "[(1, 0), (1, 1), (1, 2)]"] a n
  show ?thesis using r wf_grid_of by auto
qed

text \<open>
  Claim C3. The imperative step, which fills a fresh buffer from the current grid and then
  copies the buffer over the grid, returns for every grid the grid that the pure reference
  step computes from the snapshot before the step: every new cell depends on the old
  generation only.
\<close>

theorem step_refines_spec:
  assumes "wf_grid g"
  shows "step g = Inr (spec_step g)"
  using assms by (rule step_refines)

theorem step_refines_spec_witness:
  "wf_grid (grid_of [(1, 0), (1, 1), (1, 2)]) \<and>
   step (grid_of [(1, 0), (1, 1), (1, 2)]) = Inr (spec_step (grid_of [(1, 0), (1, 1), (1, 2)]))"
  using step_refines_spec [OF wf_grid_of, of "[(1, 0), (1, 1), (1, 2)]"] wf_grid_of
  by simp

text \<open>
  Claim C10. Array reads return \<open>None\<close> outside the array, and a \<open>None\<close> makes the scan and
  the step return \<open>Inl OutOfBounds\<close>. For every grid the neighbour scan of every cell returns
  a count and the whole step returns a grid: no read (and no write) of the step leaves
  \<open>[0, numberOfSeparators)\<close> in either dimension.
\<close>

theorem step_reads_in_bounds:
  assumes "wf_grid g"
  shows "(\<forall>i j. \<exists>n. count_x g i j (- 1) 0 = Inr n) \<and> (\<exists>g'. step g = Inr g' \<and> wf_grid g')"
  using count_x_neighbours [OF assms] step_refines [OF assms] wf_spec_step by simp

theorem step_reads_in_bounds_witness:
  "wf_grid (grid_of [(0, 0), (79, 79)]) \<and>
   (\<forall>i j. \<exists>n. count_x (grid_of [(0, 0), (79, 79)]) i j (- 1) 0 = Inr n) \<and>
   (\<exists>g'. step (grid_of [(0, 0), (79, 79)]) = Inr g' \<and> wf_grid g')"
  using step_reads_in_bounds [OF wf_grid_of, of "[(0, 0), (79, 79)]"] wf_grid_of
  by simp

text \<open>
  Claim C5, as amended. The claim as written fails on the bottom row (and on the top row):
  the cell below the middle of the line does not exist, the step leaves two alive cells and
  the next step none, because the boundary does not wrap. What holds: for every grid whose
  only alive cells are a horizontal line of three with its middle \<open>(r, c)\<close> at least one row
  away from the bottom and the top edge, one step yields exactly the vertical line of three
  around \<open>(r, c)\<close>, and a second step yields the original grid.
\<close>

theorem blinker_oscillates_inside:
  assumes "wf_grid g"
    and "1 \<le> r" "r \<le> numberOfSeparators - 2" "1 \<le> c" "c \<le> numberOfSeparators - 2"
    and "set (spec_aliveCells g) = set (horizontal_line r c)"
  shows "\<exists>g1. step g = Inr g1 \<and> set (spec_aliveCells g1) = set (vertical_line r c) \<and>
              step g1 = Inr g"
proof -
  have g: "g = grid_of (horizontal_line r c)"
    using assms(1,6) by (rule grid_of_alive)
  have 1: "step (grid_of (horizontal_line r c)) = Inr (grid_of (vertical_line r c))"
    by (rule step_grid_of) (rule hline_next [OF assms(2-5)])
  have 2: "step (grid_of (vertical_line r c)) = Inr (grid_of (horizontal_line r c))"
    by (rule step_grid_of) (rule vline_next [OF assms(2-5)])
  have 3: "set (spec_aliveCells (grid_of (vertical_line r c))) = set (vertical_line r c)"
    using assms(2-5) by (auto simp add: alive_grid_of vertical_line_def)
  from g 1 2 3 show ?thesis by simp
qed

theorem blinker_oscillates_inside_witness:
  "wf_grid (grid_of [(5, 6), (5, 7), (5, 8)]) \<and>
   (1::int) \<le> 5 \<and> 5 \<le> numberOfSeparators - 2 \<and> (1::int) \<le> 7 \<and> 7 \<le> numberOfSeparators - 2 \<and>
   set (spec_aliveCells (grid_of [(5, 6), (5, 7), (5, 8)])) = set (horizontal_line 5 7) \<and>
   (\<exists>g1. step (grid_of [(5, 6), (5, 7), (5, 8)]) = Inr g1 \<and>
         set (spec_aliveCells g1) = {(4, 7), (5, 7), (6, 7)} \<and>
         step g1 = Inr (grid_of [(5, 6), (5, 7), (5, 8)]))"
proof -
  have r: "(1::int) \<le> 5" "5 \<le> numberOfSeparators - 2" "(1::int) \<le> 7" "7 \<le> numberOfSeparators - 2"
    by (simp_all add: numberOfSeparators_def)
  have a: "set (spec_aliveCells (grid_of [(5, 6), (5, 7), (5, 8)])) = set (horizontal_line 5 7)"
    by (auto simp add: alive_grid_of horizontal_line_def numberOfSeparators_def)
  from blinker_oscillates_inside [OF wf_grid_of r a] r a wf_grid_of
  show ?thesis by (auto simp add: vertical_line_def)
qed

text \<open>
  The counterexample to claim C5 as written: the line \<open>(0,0), (0,1), (0,2)\<close> on the bottom
  row. One step leaves \<open>(0,1)\<close> and \<open>(1,1)\<close>, which is not the vertical line of three
  around \<open>(0,1)\<close>; the second step leaves no alive cell, not the original line.
\<close>

theorem blinker_bottom_row_counterexample:
  "wf_grid (grid_of [(0, 0), (0, 1), (0, 2)]) \<and>
   set (spec_aliveCells (grid_of [(0, 0), (0, 1), (0, 2)])) = set (horizontal_line 0 1) \<and>
   step (grid_of [(0, 0), (0, 1), (0, 2)]) = Inr (grid_of [(0, 1), (1, 1)]) \<and>
   set (spec_aliveCells (grid_of [(0, 1), (1, 1)])) = {(0, 1), (1, 1)} \<and>
   set (spec_aliveCells (grid_of [(0, 1), (1, 1)])) \<noteq> set (vertical_line 0 1) \<and>
   step (grid_of [(0, 1), (1, 1)]) = Inr (grid_of []) \<and>
   set (spec_aliveCells (grid_of [])) = {} \<and>
   grid_of [] \<noteq> grid_of [(0, 0), (0, 1), (0, 2)]"
proof -
  have 1: "set (spec_aliveCells (grid_of [(0, 0), (0, 1), (0, 2)])) = set (horizontal_line 0 1)"
    by (auto simp add: alive_grid_of horizontal_line_def numberOfSeparators_def)
  have 2: "step (grid_of [(0, 0), (0, 1), (0, 2)]) = Inr (grid_of [(0, 1), (1, 1)])"
    by (rule step_grid_of) (rule bottom_line_next)
  have 3: "set (spec_aliveCells (grid_of [(0, 1), (1, 1)])) = {(0, 1), (1, 1)}"
    by (auto simp add: alive_grid_of numberOfSeparators_def)
  have 4: "set (spec_aliveCells (grid_of [(0, 1), (1, 1)])) \<noteq> set (vertical_line 0 1)"
  proof
    assume eq: "set (spec_aliveCells (grid_of [(0, 1), (1, 1)])) = set (vertical_line 0 1)"
    have "(- 1, 1) \<in> set (vertical_line 0 1)"
      by (simp add: vertical_line_def)
    with eq have "(- 1, 1) \<in> set (spec_aliveCells (grid_of [(0, 1), (1, 1)]))"
      by blast
    then show False
      unfolding 3 by simp
  qed
  have 5: "step (grid_of [(0, 1), (1, 1)]) = Inr (grid_of [])"
    by (rule step_grid_of) (rule bottom_pair_next)
  have 6: "set (spec_aliveCells (grid_of [])) = {}"
    by (simp add: alive_grid_of)
  have "set (spec_aliveCells (grid_of [])) \<noteq> set (spec_aliveCells (grid_of [(0, 0), (0, 1), (0, 2)]))"
    unfolding 6 1 by (simp add: horizontal_line_def)
  then have 7: "grid_of [] \<noteq> grid_of [(0, 0), (0, 1), (0, 2)]" by auto
  from wf_grid_of 1 2 3 4 5 6 7 show ?thesis by blast
qed

section \<open>The mouse callback and the render list\<close>

text \<open>
  Claim C7. While the simulation runs, the mouse callback returns at once: for every grid,
  every button, action and cursor position the state after the call is the state before
  it, in both versions of the callback.
\<close>

theorem click_while_running_ignored:
  assumes "simulationRunning st"
  shows "mouse_button_callback st button action xpos ypos = Inr st \<and>
         mouse_button_callback_v1 st button action xpos ypos = Inr st"
  using assms by (simp add: mouse_button_callback_def mouse_button_callback_v1_def)

theorem click_while_running_ignored_witness:
  "simulationRunning (initial_state\<lparr>simulationRunning := True\<rparr>) \<and>
   mouse_button_callback (initial_state\<lparr>simulationRunning := True\<rparr>)
     GLFW_MOUSE_BUTTON_LEFT GLFW_PRESS 600 600 = Inr (initial_state\<lparr>simulationRunning := True\<rparr>) \<and>
   mouse_button_callback_v1 (initial_state\<lparr>simulationRunning := True\<rparr>)
     GLFW_MOUSE_BUTTON_LEFT GLFW_PRESS 600 600 = Inr (initial_state\<lparr>simulationRunning := True\<rparr>)"
  using click_while_running_ignored
          [of "initial_state\<lparr>simulationRunning := True\<rparr>"
              GLFW_MOUSE_BUTTON_LEFT GLFW_PRESS 600 600]
  by simp

text \<open>
  Claim C9. With the simulation paused, for every grid and every cell \<open>(row, col)\<close> inside it
  there are cursor positions that the callback maps to the cell, and for each of them a
  left press negates the cell, and a second press at the same position gives back the
  state before the first: the toggle is an involution.
\<close>

theorem toggle_negates_and_is_involution:
  assumes "wf_grid (mapGrid st)" "\<not> simulationRunning st"
    and "0 \<le> row" "row < numberOfSeparators" "0 \<le> col" "col < numberOfSeparators"
  shows "(\<exists>xpos ypos. cursor_x xpos = Some col \<and> cursor_y ypos = Some row) \<and>
         (\<forall>xpos ypos. cursor_x xpos = Some col \<and> cursor_y ypos = Some row \<longrightarrow>
            (\<exists>st' alive.
               mouse_button_callback st GLFW_MOUSE_BUTTON_LEFT GLFW_PRESS xpos ypos = Inr st' \<and>
               grid_at (mapGrid st) row col = Some alive \<and>
               grid_at (mapGrid st') row col = Some (\<not> alive) \<and>
               mouse_button_callback st' GLFW_MOUSE_BUTTON_LEFT GLFW_PRESS xpos ypos = Inr st))"
proof (intro conjI allI impI)
  show "\<exists>xpos ypos. cursor_x xpos = Some col \<and> cursor_y ypos = Some row"
    using cursor_centre [OF assms(3-6)] by blast
next
  fix xpos ypos
  assume c: "cursor_x xpos = Some col \<and> cursor_y ypos = Some row"
  from toggle_cell_props [OF assms(1,3-6)]
  obtain st' where t: "toggle_cell st row col = Inr st'" "wf_grid (mapGrid st')"
      "simulationRunning st' = simulationRunning st"
      "grid_at (mapGrid st') row col = Some (\<not> mapGrid st ! nat row ! nat col)"
      "toggle_cell st' row col = Inr st"
    by auto
  have 1: "mouse_button_callback st GLFW_MOUSE_BUTTON_LEFT GLFW_PRESS xpos ypos = Inr st'"
    using callback_paused_press [OF assms(2), of xpos col ypos row] c assms(3-6) t(1) by simp
  have 2: "mouse_button_callback st' GLFW_MOUSE_BUTTON_LEFT GLFW_PRESS xpos ypos = Inr st"
    using callback_paused_press [of st' xpos col ypos row] c assms(2-6) t(3,5) by simp
  from 1 2 t(4) grid_at_in [OF assms(1,3-6)]
  show "\<exists>st' alive.
               mouse_button_callback st GLFW_MOUSE_BUTTON_LEFT GLFW_PRESS xpos ypos = Inr st' \<and>
               grid_at (mapGrid st) row col = Some alive \<and>
               grid_at (mapGrid st') row col = Some (\<not> alive) \<and>
               mouse_button_callback st' GLFW_MOUSE_BUTTON_LEFT GLFW_PRESS xpos ypos = Inr st"
    by blast
qed

theorem toggle_negates_and_is_involution_witness:
  "wf_grid (mapGrid initial_state) \<and> \<not> simulationRunning initial_state \<and>
   (0::int) \<le> 3 \<and> 3 < numberOfSeparators \<and> (0::int) \<le> 5 \<and> 5 < numberOfSeparators \<and>
   cursor_x 80 = Some 5 \<and> cursor_y 1150 = Some 3 \<and>
   (\<exists>st'. mouse_button_callback initial_state GLFW_MOUSE_BUTTON_LEFT GLFW_PRESS 80 1150 = Inr st' \<and>
          grid_at (mapGrid initial_state) 3 5 = Some False \<and>
          grid_at (mapGrid st') 3 5 = Some True \<and>
          mouse_button_callback st' GLFW_MOUSE_BUTTON_LEFT GLFW_PRESS 80 1150 = Inr initial_state)"
proof -
  have r: "(0::int) \<le> 3" "3 < numberOfSeparators" "(0::int) \<le> 5" "5 < numberOfSeparators"
    by (simp_all add: numberOfSeparators_def)
  have cx: "cursor_x 80 = Some 5"
    by (rule cursor_x_interval) simp_all
  have cy: "cursor_y 1150 = Some 3"
    by (rule cursor_y_interval) simp_all
  have a: "grid_at (mapGrid initial_state) 3 5 = Some False"
    using r by (simp add: initial_state_def grid_at_emptyGrid)
  from toggle_negates_and_is_involution [OF wf_initial paused_initial r] cx cy
  obtain st' alive where
    "mouse_button_callback initial_state GLFW_MOUSE_BUTTON_LEFT GLFW_PRESS 80 1150 = Inr st'"
    "grid_at (mapGrid initial_state) 3 5 = Some alive"
    "grid_at (mapGrid st') 3 5 = Some (\<not> alive)"
    "mouse_button_callback st' GLFW_MOUSE_BUTTON_LEFT GLFW_PRESS 80 1150 = Inr initial_state"
    by blast
  with a r cx cy wf_initial paused_initial show ?thesis by auto
qed

text \<open>
  Claim C2, at the input where the code departs from it. A left press on the top pixel row
  of the window, at \<open>(600, 0)\<close>, gives \<open>x = 40\<close> and \<open>y = 80\<close>. The first version of the callback
  then writes \<^verbatim>\<open>mapGrid[80][40]\<close>, one row past the end of the array, where the claim asks
  for a silent no-op; the second version, with its range test, leaves the state unchanged.
\<close>

theorem first_callback_writes_out_of_bounds:
  "cursor_x 600 = Some 40 \<and> cursor_y 0 = Some 80 \<and>
   mouse_button_callback_v1 initial_state GLFW_MOUSE_BUTTON_LEFT GLFW_PRESS 600 0 = Inl OutOfBounds \<and>
   mouse_button_callback initial_state GLFW_MOUSE_BUTTON_LEFT GLFW_PRESS 600 0 = Inr initial_state"
proof -
  have out: "(40::int) < 0 \<or> numberOfSeparators \<le> 40 \<or> (80::int) < 0 \<or> numberOfSeparators \<le> 80"
    by (simp add: numberOfSeparators_def)
  have "toggle_cell initial_state 80 40 = Inl OutOfBounds"
    using wf_initial by (rule toggle_cell_out) (simp add: numberOfSeparators_def)
  then have 1: "mouse_button_callback_v1 initial_state GLFW_MOUSE_BUTTON_LEFT GLFW_PRESS 600 0 = Inl OutOfBounds"
    using callback_v1_paused_press [OF paused_initial cursor_x_600 cursor_y_0] by simp
  have 2: "mouse_button_callback initial_state GLFW_MOUSE_BUTTON_LEFT GLFW_PRESS 600 0 = Inr initial_state"
    using cursor_x_600 cursor_y_0 out by (rule callback_out_of_range_noop)
  from cursor_x_600 cursor_y_0 1 2 show ?thesis by simp
qed

text \<open>
  Claim C4, as amended. Three things in the claim as written do not hold of the code, and
  the counterexample below shows each: the cast rounds toward zero, not down; the quotient
  and the product are rounded to doubles before the cast; and the divisor is the constant
  1200, not the size the window has. The last looks like an oversight (the viewport follows
  a resize, the mapping does not), so the amended claim speaks of a window of the size it
  is created with and says nothing about a resized one. What holds: with the simulation
  paused, for a left press at a cursor position whose two casts are defined, in a window
  of \<open>windowWidth\<close> by \<open>windowHeight\<close> pixels, the column is the truncation of
  \<open>fl (fl (xpos / windowWidth) * N)\<close> and the row the truncation of
  \<open>fl (fl (fl (windowHeight - ypos) / windowHeight) * N)\<close>, where \<open>fl\<close> rounds to the nearest
  double and the truncation is the floor when the rounded product is not negative; for a
  position at least one pixel inside a cell of the grid this is the cell that the floor
  formula of the specification gives; and the callback toggles the cell \<open>(row, col)\<close> when
  both indices lie in \<open>[0, N)\<close> and leaves the state unchanged exactly when they do not.
\<close>

theorem device_to_cell_truncates:
  assumes "wf_grid (mapGrid st)" "\<not> simulationRunning st"
    and "w = real_of_int windowWidth" "h = real_of_int windowHeight"
    and "cursor_x xpos = Some col" "cursor_y ypos = Some row"
  shows "col = trunc_toward_zero
                 (double_round (double_round (xpos / w) * real_of_int numberOfSeparators)) \<and>
         row = trunc_toward_zero
                 (double_round (double_round (double_round (h - ypos) / h)
                                * real_of_int numberOfSeparators)) \<and>
         (0 \<le> double_round (double_round (xpos / w) * real_of_int numberOfSeparators) \<longrightarrow>
            col = \<lfloor>double_round (double_round (xpos / w) * real_of_int numberOfSeparators)\<rfloor>) \<and>
         (0 \<le> double_round (double_round (double_round (h - ypos) / h)
                              * real_of_int numberOfSeparators) \<longrightarrow>
            row = \<lfloor>double_round (double_round (double_round (h - ypos) / h)
                                * real_of_int numberOfSeparators)\<rfloor>) \<and>
         (\<forall>r c. 0 \<le> r \<and> r < numberOfSeparators \<and> 0 \<le> c \<and> c < numberOfSeparators \<and>
                real_of_int c * (w / real_of_int numberOfSeparators) + 1 \<le> xpos \<and>
                xpos \<le> real_of_int (c + 1) * (w / real_of_int numberOfSeparators) - 1 \<and>
                real_of_int r * (h / real_of_int numberOfSeparators) + 1 \<le> h - ypos \<and>
                h - ypos \<le> real_of_int (r + 1) * (h / real_of_int numberOfSeparators) - 1 \<longrightarrow>
                (row, col) = (r, c) \<and> spec_deviceToCell xpos ypos w h = Some (r, c)) \<and>
         mouse_button_callback st GLFW_MOUSE_BUTTON_LEFT GLFW_PRESS xpos ypos =
           (if 0 \<le> row \<and> row < numberOfSeparators \<and> 0 \<le> col \<and> col < numberOfSeparators
            then toggle_cell st row col else Inr st) \<and>
         (mouse_button_callback st GLFW_MOUSE_BUTTON_LEFT GLFW_PRESS xpos ypos = Inr st \<longleftrightarrow>
            \<not> (0 \<le> row \<and> row < numberOfSeparators \<and> 0 \<le> col \<and> col < numberOfSeparators))"
proof -
  let ?vx = "double_round (double_round (xpos / w) * real_of_int numberOfSeparators)"
  let ?vy = "double_round (double_round (double_round (h - ypos) / h) * real_of_int numberOfSeparators)"
  let ?inside = "0 \<le> row \<and> row < numberOfSeparators \<and> 0 \<le> col \<and> col < numberOfSeparators"
  have c: "col = trunc_toward_zero ?vx"
    using assms(5) unfolding cursor_x_def assms(3) by (rule c_int_cast_trunc)
  have r: "row = trunc_toward_zero ?vy"
    using assms(6) unfolding cursor_y_def assms(4) by (rule c_int_cast_trunc)
  have cf: "0 \<le> ?vx \<longrightarrow> col = \<lfloor>?vx\<rfloor>"
    using c by (simp add: trunc_nonneg)
  have rf: "0 \<le> ?vy \<longrightarrow> row = \<lfloor>?vy\<rfloor>"
    using r by (simp add: trunc_nonneg)
  have s: "(row, col) = (r', c') \<and> spec_deviceToCell xpos ypos w h = Some (r', c')"
    if "0 \<le> r' \<and> r' < numberOfSeparators \<and> 0 \<le> c' \<and> c' < numberOfSeparators \<and>
        real_of_int c' * (w / real_of_int numberOfSeparators) + 1 \<le> xpos \<and>
        xpos \<le> real_of_int (c' + 1) * (w / real_of_int numberOfSeparators) - 1 \<and>
        real_of_int r' * (h / real_of_int numberOfSeparators) + 1 \<le> h - ypos \<and>
        h - ypos \<le> real_of_int (r' + 1) * (h / real_of_int numberOfSeparators) - 1"
    for r' c'
  proof -
    from that have b: "0 \<le> r'" "r' \<le> 79" "0 \<le> c'" "c' \<le> 79"
      by (simp_all add: numberOfSeparators_def)
    from that have x: "real_of_int c' * 15 + 1 \<le> xpos" "xpos \<le> real_of_int c' * 15 + 14"
      by (simp_all add: assms(3) windowWidth_def numberOfSeparators_def algebra_simps)
    from that have y: "real_of_int r' * 15 + 1 \<le> 1200 - ypos" "1200 - ypos \<le> real_of_int r' * 15 + 14"
      by (simp_all add: assms(4) windowHeight_def numberOfSeparators_def algebra_simps)
    have "cursor_x xpos = Some c'" using b(3,4) x by (rule cursor_x_interval)
    with assms(5) have 1: "col = c'" by simp
    have "cursor_y ypos = Some r'" using b(1,2) y by (rule cursor_y_interval)
    with assms(6) have 2: "row = r'" by simp
    have fx: "\<lfloor>xpos / 1200 * 80\<rfloor> = c'"
      unfolding floor_eq_iff using x by (simp add: field_simps)
    have fy: "\<lfloor>(1200 - ypos) / 1200 * 80\<rfloor> = r'"
      unfolding floor_eq_iff using y by (simp add: field_simps)
    have "spec_deviceToCell xpos ypos w h = Some (r', c')"
      using fx fy that
      by (simp add: spec_deviceToCell_def Let_def assms(3,4) windowWidth_def windowHeight_def
            numberOfSeparators_def)
    with 1 2 show ?thesis by simp
  qed
  have m: "mouse_button_callback st GLFW_MOUSE_BUTTON_LEFT GLFW_PRESS xpos ypos =
           (if ?inside then toggle_cell st row col else Inr st)"
    using callback_paused_press [OF assms(2,5,6)] by auto
  have d: "toggle_cell st row col \<noteq> Inr st" if i: "?inside"
  proof
    assume e: "toggle_cell st row col = Inr st"
    from i toggle_cell_props [OF assms(1), of row col]
    obtain st' where "toggle_cell st row col = Inr st'"
      "grid_at (mapGrid st') row col = Some (\<not> mapGrid st ! nat row ! nat col)"
      by auto
    with e have "grid_at (mapGrid st) row col = Some (\<not> mapGrid st ! nat row ! nat col)"
      by simp
    with i grid_at_in [OF assms(1), of row col] show False by simp
  qed
  from d m have k: "mouse_button_callback st GLFW_MOUSE_BUTTON_LEFT GLFW_PRESS xpos ypos = Inr st \<longleftrightarrow>
            \<not> ?inside"
    by auto
  from c r cf rf s m k show ?thesis by blast
qed

theorem device_to_cell_truncates_witness:
  "wf_grid (mapGrid initial_state) \<and> \<not> simulationRunning initial_state \<and>
   (1200::real) = real_of_int windowWidth \<and> (1200::real) = real_of_int windowHeight \<and>
   cursor_x 80 = Some 5 \<and> cursor_y 1150 = Some 3 \<and>
   (5::int) = trunc_toward_zero
                (double_round (double_round (80 / 1200) * real_of_int numberOfSeparators)) \<and>
   (3::int) = trunc_toward_zero
                (double_round (double_round (double_round (1200 - 1150) / 1200)
                               * real_of_int numberOfSeparators)) \<and>
   spec_deviceToCell 80 1150 1200 1200 = Some (3, 5) \<and>
   mouse_button_callback initial_state GLFW_MOUSE_BUTTON_LEFT GLFW_PRESS 80 1150 =
     Inr (initial_state\<lparr>mapGrid := grid_of [(3, 5)]\<rparr>) \<and>
   mouse_button_callback initial_state GLFW_MOUSE_BUTTON_LEFT GLFW_PRESS 80 1150 \<noteq> Inr initial_state"
proof -
  have r: "(0::int) \<le> 3" "3 < numberOfSeparators" "(0::int) \<le> 5" "5 < numberOfSeparators"
    by (simp_all add: numberOfSeparators_def)
  have wh: "(1200::real) = real_of_int windowWidth" "(1200::real) = real_of_int windowHeight"
    by (simp_all add: windowWidth_def windowHeight_def)
  have cx: "cursor_x 80 = Some 5"
    by (rule cursor_x_interval) simp_all
  have cy: "cursor_y 1150 = Some 3"
    by (rule cursor_y_interval) simp_all
  note t = device_to_cell_truncates [OF wf_initial paused_initial wh cx cy]
  have 1: "(5::int) = trunc_toward_zero
                (double_round (double_round (80 / 1200) * real_of_int numberOfSeparators))"
    using t by blast
  have 2: "(3::int) = trunc_toward_zero
                (double_round (double_round (double_round (1200 - 1150) / 1200)
                               * real_of_int numberOfSeparators))"
    using t by blast
  have "(0::int) \<le> 3 \<and> 3 < numberOfSeparators \<and> (0::int) \<le> 5 \<and> 5 < numberOfSeparators \<and>
        real_of_int 5 * (1200 / real_of_int numberOfSeparators) + 1 \<le> 80 \<and>
        80 \<le> real_of_int (5 + 1) * (1200 / real_of_int numberOfSeparators) - 1 \<and>
        real_of_int 3 * (1200 / real_of_int numberOfSeparators) + 1 \<le> 1200 - 1150 \<and>
        1200 - 1150 \<le> real_of_int (3 + 1) * (1200 / real_of_int numberOfSeparators) - 1"
    by (simp add: numberOfSeparators_def)
  with t have 3: "spec_deviceToCell 80 1150 1200 1200 = Some (3, 5)"
    by blast
  have 4: "mouse_button_callback initial_state GLFW_MOUSE_BUTTON_LEFT GLFW_PRESS 80 1150 =
             Inr (initial_state\<lparr>mapGrid := grid_of [(3, 5)]\<rparr>)"
    using t r toggle_initial [OF r] by simp
  have 5: "mouse_button_callback initial_state GLFW_MOUSE_BUTTON_LEFT GLFW_PRESS 80 1150 \<noteq> Inr initial_state"
    using t r by blast
  from 1 2 3 4 5 wh wf_initial paused_initial cx cy show ?thesis by blast
qed

text \<open>
  The counterexample to claim C4 as written, at three inputs. At \<open>(600, 1201)\<close>, one pixel
  below a window that is 1200 high, the floor of \<open>-1/15\<close> is \<open>-1\<close> and the mapping of the
  claim yields no cell; the cast gives row 0 and the callback toggles the cell \<open>(0, 40)\<close>.
  In a window resized to 600 by 600, at its centre \<open>(300, 300)\<close>, the mapping of the claim
  yields the cell \<open>(40, 40)\<close>; the callback divides by 1200 and toggles \<open>(60, 20)\<close>. At
  \<open>(600, 1 / 2 ^ 50)\<close> the mapping of the claim yields the cell \<open>(79, 40)\<close>; the
  subtraction \<open>1200 - 1 / 2 ^ 50\<close> rounds to 1200, the row is 80 and the callback does
  nothing.
\<close>

theorem floor_mapping_counterexample:
  "spec_deviceToCell 600 1201 1200 1200 = None \<and>
   mouse_button_callback initial_state GLFW_MOUSE_BUTTON_LEFT GLFW_PRESS 600 1201 =
     Inr (initial_state\<lparr>mapGrid := grid_of [(0, 40)]\<rparr>) \<and>
   grid_at (mapGrid initial_state) 0 40 = Some False \<and>
   grid_at (grid_of [(0, 40)]) 0 40 = Some True \<and>
   spec_deviceToCell 300 300 600 600 = Some (40, 40) \<and>
   mouse_button_callback initial_state GLFW_MOUSE_BUTTON_LEFT GLFW_PRESS 300 300 =
     Inr (initial_state\<lparr>mapGrid := grid_of [(60, 20)]\<rparr>) \<and>
   grid_at (grid_of [(60, 20)]) 40 40 = Some False \<and>
   grid_at (grid_of [(60, 20)]) 60 20 = Some True \<and>
   spec_deviceToCell 600 (1 / 2 ^ 50) 1200 1200 = Some (79, 40) \<and>
   mouse_button_callback initial_state GLFW_MOUSE_BUTTON_LEFT GLFW_PRESS 600 (1 / 2 ^ 50) =
     Inr initial_state"
proof -
  have s1: "spec_deviceToCell 600 1201 1200 1200 = None"
    by (simp add: spec_deviceToCell_def numberOfSeparators_def floor_eq_iff Let_def)
  have r1: "(0::int) \<le> 0" "0 < numberOfSeparators" "(0::int) \<le> 40" "40 < numberOfSeparators"
    by (simp_all add: numberOfSeparators_def)
  have m1: "mouse_button_callback initial_state GLFW_MOUSE_BUTTON_LEFT GLFW_PRESS 600 1201 =
     Inr (initial_state\<lparr>mapGrid := grid_of [(0, 40)]\<rparr>)"
    using callback_paused_press [OF paused_initial cursor_x_600 cursor_y_1201]
      toggle_initial [OF r1] r1 by simp
  have a1: "grid_at (mapGrid initial_state) 0 40 = Some False"
    using r1 by (simp add: initial_state_def grid_at_emptyGrid)
  have b1: "grid_at (grid_of [(0, 40)]) 0 40 = Some True"
    using r1 by (simp add: grid_at_grid_of)
  have s2: "spec_deviceToCell 300 300 600 600 = Some (40, 40)"
    by (simp add: spec_deviceToCell_def numberOfSeparators_def Let_def)
  have r2: "(0::int) \<le> 60" "60 < numberOfSeparators" "(0::int) \<le> 20" "20 < numberOfSeparators"
    by (simp_all add: numberOfSeparators_def)
  have m2: "mouse_button_callback initial_state GLFW_MOUSE_BUTTON_LEFT GLFW_PRESS 300 300 =
     Inr (initial_state\<lparr>mapGrid := grid_of [(60, 20)]\<rparr>)"
    using callback_paused_press [OF paused_initial cursor_x_300 cursor_y_300]
      toggle_initial [OF r2] r2 by simp
  have a2: "grid_at (grid_of [(60, 20)]) 40 40 = Some False"
    by (simp add: grid_at_grid_of numberOfSeparators_def)
  have b2: "grid_at (grid_of [(60, 20)]) 60 20 = Some True"
    using r2 by (simp add: grid_at_grid_of)
  have "\<lfloor>(1200 - 1 / 2 ^ 50) / 1200 * 80 :: real\<rfloor> = 79"
    unfolding floor_eq_iff by simp
  then have s3: "spec_deviceToCell 600 (1 / 2 ^ 50) 1200 1200 = Some (79, 40)"
    by (simp add: spec_deviceToCell_def numberOfSeparators_def Let_def)
  have out: "(40::int) < 0 \<or> numberOfSeparators \<le> 40 \<or> (80::int) < 0 \<or> numberOfSeparators \<le> 80"
    by (simp add: numberOfSeparators_def)
  have m3: "mouse_button_callback initial_state GLFW_MOUSE_BUTTON_LEFT GLFW_PRESS 600 (1 / 2 ^ 50) =
     Inr initial_state"
    using cursor_x_600 cursor_y_tiny out by (rule callback_out_of_range_noop)
  from s1 m1 a1 b1 s2 m2 a2 b2 s3 m3 show ?thesis by blast
qed

text \<open>
  Claim C6. For every grid, one frame of the main loop leaves in the render list one entry
  for each coordinate that is alive in the grid after the frame's step (if the simulation
  runs; in the unchanged grid otherwise): the list is the offsets of the alive coordinates
  in row-major order, each coordinate once. Nothing else enters it: neither the list built
  by the frame before, which is cleared, nor the generation that the step replaced.
\<close>

theorem render_list_is_alive_cells:
  assumes "wf_grid (mapGrid st)"
  shows "\<exists>st' square'.
           main_frame st square = Inr (st', square') \<and>
           mapGrid st' = (if simulationRunning st then spec_step (mapGrid st) else mapGrid st) \<and>
           square' = \<lparr>translations_vec =
                        map (\<lambda>(i, j). cell_offset i j) (spec_aliveCells (mapGrid st'))\<rparr> \<and>
           set (spec_aliveCells (mapGrid st')) = {(i, j). grid_at (mapGrid st') i j = Some True} \<and>
           distinct (spec_aliveCells (mapGrid st')) \<and>
           sorted_wrt row_major_less (spec_aliveCells (mapGrid st'))"
proof (cases "simulationRunning st")
  case True
  let ?st' = "st\<lparr>mapGrid := spec_step (mapGrid st)\<rparr>"
  have wf': "wf_grid (mapGrid ?st')" by (simp add: wf_spec_step)
  have "main_frame st square =
          Inr (?st', square\<lparr>translations_vec :=
                        map (\<lambda>(i, j). cell_offset i j) (spec_aliveCells (mapGrid ?st'))\<rparr>)"
    using True by (simp add: main_frame_def step_refines [OF assms] rebuild_eq [OF wf_spec_step])
  with True set_spec_aliveCells [OF wf'] distinct_aliveCells [of "mapGrid ?st'"]
    sorted_aliveCells [of "mapGrid ?st'"]
  show ?thesis by simp
next
  case False
  have "main_frame st square =
          Inr (st, square\<lparr>translations_vec :=
                        map (\<lambda>(i, j). cell_offset i j) (spec_aliveCells (mapGrid st))\<rparr>)"
    using False by (simp add: main_frame_def rebuild_eq [OF assms])
  with False set_spec_aliveCells [OF assms] distinct_aliveCells [of "mapGrid st"]
    sorted_aliveCells [of "mapGrid st"]
  show ?thesis by simp
qed

theorem render_list_is_alive_cells_witness:
  "wf_grid (mapGrid \<lparr>mapGrid = grid_of (horizontal_line 5 7), simulationRunning = True\<rparr>) \<and>
   (\<exists>st' square'.
      main_frame \<lparr>mapGrid = grid_of (horizontal_line 5 7), simulationRunning = True\<rparr>
                 \<lparr>translations_vec = [\<lparr>vec_x = 9, vec_y = 9\<rparr>]\<rparr> = Inr (st', square') \<and>
      mapGrid st' = grid_of (vertical_line 5 7) \<and>
      square' = \<lparr>translations_vec =
                   map (\<lambda>(i, j). cell_offset i j) (spec_aliveCells (grid_of (vertical_line 5 7)))\<rparr> \<and>
      set (spec_aliveCells (mapGrid st')) = {(4, 7), (5, 7), (6, 7)} \<and>
      length (translations_vec square') = 3)"
proof -
  let ?st = "\<lparr>mapGrid = grid_of (horizontal_line 5 7), simulationRunning = True\<rparr>"
  let ?sq = "\<lparr>translations_vec = [\<lparr>vec_x = 9, vec_y = 9\<rparr>]\<rparr>"
  have wf: "wf_grid (mapGrid ?st)" by (simp add: wf_grid_of)
  have r: "(1::int) \<le> 5" "5 \<le> numberOfSeparators - 2" "(1::int) \<le> 7" "7 \<le> numberOfSeparators - 2"
    by (simp_all add: numberOfSeparators_def)
  have "step (grid_of (horizontal_line 5 7)) = Inr (grid_of (vertical_line 5 7))"
    by (rule step_grid_of) (rule hline_next [OF r])
  then have s: "spec_step (grid_of (horizontal_line 5 7)) = grid_of (vertical_line 5 7)"
    by (simp add: step_refines [OF wf_grid_of])
  have a: "set (spec_aliveCells (grid_of (vertical_line 5 7))) = {(4, 7), (5, 7), (6, 7)}"
    by (auto simp add: alive_grid_of vertical_line_def numberOfSeparators_def)
  have "card (set (spec_aliveCells (grid_of (vertical_line 5 7)))) = 3"
    unfolding a by simp
  then have l: "length (spec_aliveCells (grid_of (vertical_line 5 7))) = 3"
    using distinct_card [OF distinct_aliveCells, of "grid_of (vertical_line 5 7)"] by simp
  from render_list_is_alive_cells [OF wf, of ?sq]
  obtain st' square' where
    "main_frame ?st ?sq = Inr (st', square')"
    "mapGrid st' = grid_of (vertical_line 5 7)"
    "square' = \<lparr>translations_vec =
                   map (\<lambda>(i, j). cell_offset i j) (spec_aliveCells (mapGrid st'))\<rparr>"
    by (auto simp add: s)
  with a l wf show ?thesis by auto
qed

text \<open>
  Claim C8. For every cell \<open>(row, col)\<close> inside the grid that is alive, the entry that the
  rebuild adds for it is \<open>x = viewPortLeft + gridSquareSize * col\<close> and
  \<open>y = viewPortBottom + gridSquareSize * row\<close>, with \<open>gridSquareSize = viewPortSize / N\<close> and
  the viewport \<open>[-1, 1]\<close>: the offset the specification gives. Floats are read as real
  numbers.
\<close>

theorem render_offset_of_cell:
  assumes "wf_grid g"
    and "0 \<le> row" "row < numberOfSeparators" "0 \<le> col" "col < numberOfSeparators"
    and "grid_at g row col = Some True"
  shows "\<exists>square' k.
           rebuild g square = Inr square' \<and>
           length (translations_vec square') = length (spec_aliveCells g) \<and>
           k < length (spec_aliveCells g) \<and> spec_aliveCells g ! k = (row, col) \<and>
           translations_vec square' ! k = spec_cellToOffset row col \<and>
           spec_cellToOffset row col =
             \<lparr>vec_x = viewPortLeft + gridSquareSize * real_of_int col,
              vec_y = viewPortBottom + gridSquareSize * real_of_int row\<rparr> \<and>
           viewPortLeft = - 1 \<and> viewPortBottom = - 1 \<and>
           gridSquareSize = (1 - (- 1)) / real_of_int numberOfSeparators"
proof -
  have "(row, col) \<in> set (spec_aliveCells g)"
    using assms(6) by (simp add: set_spec_aliveCells [OF assms(1)])
  then obtain k where k: "k < length (spec_aliveCells g)" "spec_aliveCells g ! k = (row, col)"
    by (auto simp add: in_set_conv_nth)
  have r: "rebuild g square =
             Inr (square\<lparr>translations_vec := map (\<lambda>(i, j). cell_offset i j) (spec_aliveCells g)\<rparr>)"
    using assms(1) by (rule rebuild_eq)
  have o: "spec_cellToOffset row col =
             \<lparr>vec_x = viewPortLeft + gridSquareSize * real_of_int col,
              vec_y = viewPortBottom + gridSquareSize * real_of_int row\<rparr>"
    using cell_offset_spec [of row col] by (simp add: cell_offset_def)
  have c: "viewPortLeft = - 1 \<and> viewPortBottom = - 1 \<and>
           gridSquareSize = (1 - (- 1)) / real_of_int numberOfSeparators"
    by (simp add: viewPortLeft_def viewPortBottom_def gridSquareSize_def viewPortSize_def)
  let ?sq = "square\<lparr>translations_vec := map (\<lambda>(i, j). cell_offset i j) (spec_aliveCells g)\<rparr>"
  have l: "length (translations_vec ?sq) = length (spec_aliveCells g)"
    by simp
  have n: "translations_vec ?sq ! k = spec_cellToOffset row col"
    using k by (simp add: cell_offset_spec)
  from r l k n o c show ?thesis by blast
qed

theorem render_offset_of_cell_witness:
  "wf_grid (grid_of [(2, 3)]) \<and>
   (0::int) \<le> 2 \<and> 2 < numberOfSeparators \<and> (0::int) \<le> 3 \<and> 3 < numberOfSeparators \<and>
   grid_at (grid_of [(2, 3)]) 2 3 = Some True \<and>
   (\<exists>square' k.
      rebuild (grid_of [(2, 3)]) \<lparr>translations_vec = []\<rparr> = Inr square' \<and>
      k < length (spec_aliveCells (grid_of [(2, 3)])) \<and>
      spec_aliveCells (grid_of [(2, 3)]) ! k = (2, 3) \<and>
      translations_vec square' ! k = \<lparr>vec_x = - (37 / 40), vec_y = - (19 / 20)\<rparr>)"
proof -
  have r: "(0::int) \<le> 2" "2 < numberOfSeparators" "(0::int) \<le> 3" "3 < numberOfSeparators"
    by (simp_all add: numberOfSeparators_def)
  have a: "grid_at (grid_of [(2, 3)]) 2 3 = Some True"
    using r by (simp add: grid_at_grid_of)
  have v: "spec_cellToOffset 2 3 = \<lparr>vec_x = - (37 / 40), vec_y = - (19 / 20)\<rparr>"
    by (simp add: spec_cellToOffset_def numberOfSeparators_def)
  from render_offset_of_cell [OF wf_grid_of r a, of "\<lparr>translations_vec = []\<rparr>"]
  obtain square' k where
    "rebuild (grid_of [(2, 3)]) \<lparr>translations_vec = []\<rparr> = Inr square'"
    "k < length (spec_aliveCells (grid_of [(2, 3)]))"
    "spec_aliveCells (grid_of [(2, 3)]) ! k = (2, 3)"
    "translations_vec square' ! k = spec_cellToOffset 2 3"
    by blast
  with v r a wf_grid_of show ?thesis by auto
qed

end
